theory Spec2Isabelle
  imports Main "HOL-Library.Word" "HOL-Library.Monad_Syntax"
begin

unbundle bit_operations_syntax

section \<open>Memory, machine integers and results\<close>

text \<open>
  The library of \<^verbatim>\<open>macho.c\<close> never allocates and never writes: every function reads a
  Mach-O image through raw pointers. The model keeps that shape.

  \<^item> Memory is a partial map from addresses to bytes; an address outside its domain is not
    readable. A read returns \<open>None\<close> when it touches such an address, and every function
    that reads returns an \<open>option\<close>: \<open>None\<close> means that the C call has no result, because a
    read left the readable memory or (for the loops over load commands) because the loop
    never ends.
  \<^item> Values stored in the file are machine words (\<open>uint8_t\<close>, \<open>uint32_t\<close>, \<open>uint64_t\<close>) and
    their arithmetic wraps; \<open>size_t\<close> is 64 bits wide (LP64) and multi-byte fields are read
    little-endian, as on the hosts the tool is built for.
  \<^item> Pointers (\<open>uintptr_t\<close>) are natural numbers. The code only ever adds to a pointer an
    offset below \<open>2 ^ 40\<close> taken from the file, starting from the address of the image, so
    pointer arithmetic does not wrap on a host whose objects live below \<open>2 ^ 63\<close>.
  \<^item> A pointer that may be \<^verbatim>\<open>NULL\<close> is an \<open>addr option\<close>.
\<close>

type_synonym byte = "8 word"

type_synonym u32 = "32 word"

type_synonym u64 = "64 word"

type_synonym addr = nat

type_synonym memory = "addr \<Rightarrow> byte option"

datatype macho_result = MACHO_SUCCESS | MACHO_ERROR | MACHO_NOT_FOUND

text \<open>\<^verbatim>\<open>struct macho\<close>: the pointer to the file data and the size of the data.\<close>

record macho =
  mh :: addr
  msize :: u64

text \<open>The memory that holds exactly the bytes \<open>bs\<close> at address \<open>base\<close>.\<close>

definition load_at :: "addr \<Rightarrow> byte list \<Rightarrow> memory" where
  "load_at base bs a =
     (if base \<le> a \<and> a - base < length bs then Some (bs ! (a - base)) else None)"

definition rd8 :: "memory \<Rightarrow> addr \<Rightarrow> byte option" where
  "rd8 mem a = mem a"

definition le32 :: "byte \<Rightarrow> byte \<Rightarrow> byte \<Rightarrow> byte \<Rightarrow> u32" where
  "le32 b0 b1 b2 b3 =
     ucast b0 OR push_bit 8 (ucast b1) OR push_bit 16 (ucast b2) OR push_bit 24 (ucast b3)"

definition rd32 :: "memory \<Rightarrow> addr \<Rightarrow> u32 option" where
  "rd32 mem a =
     (case mem a of None \<Rightarrow> None | Some b0 \<Rightarrow>
      case mem (a + 1) of None \<Rightarrow> None | Some b1 \<Rightarrow>
      case mem (a + 2) of None \<Rightarrow> None | Some b2 \<Rightarrow>
      case mem (a + 3) of None \<Rightarrow> None | Some b3 \<Rightarrow> Some (le32 b0 b1 b2 b3))"

definition rd64 :: "memory \<Rightarrow> addr \<Rightarrow> u64 option" where
  "rd64 mem a =
     (case rd32 mem a of None \<Rightarrow> None | Some lo \<Rightarrow>
      case rd32 mem (a + 4) of None \<Rightarrow> None | Some hi \<Rightarrow>
        Some (ucast lo OR push_bit 32 (ucast hi)))"

text \<open>The \<open>n\<close> bytes from address \<open>a\<close> on are readable.\<close>

definition readable :: "memory \<Rightarrow> addr \<Rightarrow> nat \<Rightarrow> bool" where
  "readable mem a n = (\<forall>i<n. mem (a + i) \<noteq> None)"

section \<open>Constants and layouts of the system headers\<close>

text \<open>
  The values of \<^verbatim>\<open><mach-o/loader.h>\<close>, \<^verbatim>\<open><mach-o/nlist.h>\<close> and \<^verbatim>\<open><mach/vm_prot.h>\<close>, which the
  source includes. The field offsets used below are those of the structures declared there
  (\<^verbatim>\<open>mach_header\<close> 28 bytes, \<^verbatim>\<open>mach_header_64\<close> 32, \<^verbatim>\<open>segment_command\<close> 56,
  \<^verbatim>\<open>segment_command_64\<close> 72, \<^verbatim>\<open>section\<close> 68, \<^verbatim>\<open>section_64\<close> 80, \<^verbatim>\<open>nlist\<close> 12,
  \<^verbatim>\<open>nlist_64\<close> 16).
\<close>

definition MH_MAGIC :: u32 where "MH_MAGIC = 0xfeedface"

definition MH_MAGIC_64 :: u32 where "MH_MAGIC_64 = 0xfeedfacf"

definition LC_SEGMENT :: u32 where "LC_SEGMENT = 0x1"

definition LC_SEGMENT_64 :: u32 where "LC_SEGMENT_64 = 0x19"

definition N_STAB :: byte where "N_STAB = 0xe0"

definition N_TYPE :: byte where "N_TYPE = 0x0e"

definition N_UNDF :: byte where "N_UNDF = 0x0"

definition N_SECT :: byte where "N_SECT = 0xe"

definition NO_SECT :: u32 where "NO_SECT = 0"

definition VM_PROT_EXECUTE :: u32 where "VM_PROT_EXECUTE = 0x4"

section \<open>Validation\<close>

definition macho_validate_32 :: "memory \<Rightarrow> addr \<Rightarrow> u64 \<Rightarrow> macho_result option" where
  "macho_validate_32 mem p sz = do {
     magic \<leftarrow> rd32 mem p;
     if magic \<noteq> MH_MAGIC then Some MACHO_ERROR
     else if sz < 28 then Some MACHO_ERROR
     else do {
       sizeofcmds \<leftarrow> rd32 mem (p + 20);
       if ucast sizeofcmds > sz then Some MACHO_ERROR else Some MACHO_SUCCESS
     }
   }"

definition macho_validate_64 :: "memory \<Rightarrow> addr \<Rightarrow> u64 \<Rightarrow> macho_result option" where
  "macho_validate_64 mem p sz = do {
     magic \<leftarrow> rd32 mem p;
     if magic \<noteq> MH_MAGIC_64 then Some MACHO_ERROR
     else if sz < 32 then Some MACHO_ERROR
     else do {
       sizeofcmds \<leftarrow> rd32 mem (p + 20);
       if ucast sizeofcmds > sz then Some MACHO_ERROR else Some MACHO_SUCCESS
     }
   }"

definition macho_validate :: "memory \<Rightarrow> addr \<Rightarrow> u64 \<Rightarrow> macho_result option" where
  "macho_validate mem p sz =
     (if sz < 28 then Some MACHO_ERROR
      else do {
        magic \<leftarrow> rd32 mem p;
        if magic = MH_MAGIC then macho_validate_32 mem p sz
        else if magic = MH_MAGIC_64 then macho_validate_64 mem p sz
        else Some MACHO_ERROR
      })"

text \<open>
  The three conditions of the specification, in its words: the magic at offset 0 is one of
  the two recognized ones, the buffer is at least as long as the header of the detected
  width, and the declared byte length of the command table (at offset 20 of both headers)
  is at most the length of the buffer.
\<close>

definition recognized_magic :: "u32 \<Rightarrow> bool" where
  "recognized_magic magic = (magic = MH_MAGIC \<or> magic = MH_MAGIC_64)"

definition header_size_of_magic :: "u32 \<Rightarrow> u64" where
  "header_size_of_magic magic = (if magic = MH_MAGIC_64 then 32 else 28)"

definition validate_conditions :: "memory \<Rightarrow> addr \<Rightarrow> u64 \<Rightarrow> bool" where
  "validate_conditions mem p sz =
     (case rd32 mem p of None \<Rightarrow> False | Some magic \<Rightarrow>
        recognized_magic magic \<and> header_size_of_magic magic \<le> sz \<and>
        (case rd32 mem (p + 20) of None \<Rightarrow> False | Some sizeofcmds \<Rightarrow>
           ucast sizeofcmds \<le> sz))"

section \<open>Width-dependent access\<close>

definition macho_is_32 :: "memory \<Rightarrow> macho \<Rightarrow> bool option" where
  "macho_is_32 mem m = do { magic \<leftarrow> rd32 mem (mh m); Some (magic = MH_MAGIC) }"

definition macho_is_64 :: "memory \<Rightarrow> macho \<Rightarrow> bool option" where
  "macho_is_64 mem m = do { magic \<leftarrow> rd32 mem (mh m); Some (magic = MH_MAGIC_64) }"

text \<open>
  \<^verbatim>\<open>MACHO_STRUCT_SIZE\<close>: the size of a structure under the width of the image, given the
  sizes of its 64-bit and of its 32-bit declaration.
\<close>

definition MACHO_STRUCT_SIZE :: "memory \<Rightarrow> macho \<Rightarrow> nat \<Rightarrow> nat \<Rightarrow> nat option" where
  "MACHO_STRUCT_SIZE mem m size64 size32 = do {
     is64 \<leftarrow> macho_is_64 mem m;
     Some (if is64 then size64 else size32)
   }"

text \<open>
  \<^verbatim>\<open>MACHO_STRUCT_FIELD\<close>, once for each shape of field: a \<^verbatim>\<open>uint32_t\<close> in both layouts, a
  field that is a \<^verbatim>\<open>uint64_t\<close> in the 64-bit layout and a \<^verbatim>\<open>uint32_t\<close> in the 32-bit one
  (the value is widened, as the C conditional expression does), and a \<^verbatim>\<open>uint8_t\<close>. The
  offsets are those of the field in the 64-bit and in the 32-bit structure.
\<close>

definition field_u32 :: "memory \<Rightarrow> macho \<Rightarrow> addr \<Rightarrow> nat \<Rightarrow> nat \<Rightarrow> u32 option" where
  "field_u32 mem m obj off64 off32 = do {
     is64 \<leftarrow> macho_is_64 mem m;
     if is64 then rd32 mem (obj + off64) else rd32 mem (obj + off32)
   }"

definition field_long :: "memory \<Rightarrow> macho \<Rightarrow> addr \<Rightarrow> nat \<Rightarrow> nat \<Rightarrow> u64 option" where
  "field_long mem m obj off64 off32 = do {
     is64 \<leftarrow> macho_is_64 mem m;
     if is64 then rd64 mem (obj + off64)
     else do { v \<leftarrow> rd32 mem (obj + off32); Some (ucast v) }
   }"

definition field_u8 :: "memory \<Rightarrow> macho \<Rightarrow> addr \<Rightarrow> nat \<Rightarrow> nat \<Rightarrow> byte option" where
  "field_u8 mem m obj off64 off32 = do {
     is64 \<leftarrow> macho_is_64 mem m;
     if is64 then rd8 mem (obj + off64) else rd8 mem (obj + off32)
   }"

definition macho_header_size :: "memory \<Rightarrow> macho \<Rightarrow> nat option" where
  "macho_header_size mem m = MACHO_STRUCT_SIZE mem m 32 28"

definition header_sizeofcmds :: "memory \<Rightarrow> macho \<Rightarrow> u32 option" where
  "header_sizeofcmds mem m = field_u32 mem m (mh m) 20 20"

definition lc_cmd :: "memory \<Rightarrow> addr \<Rightarrow> u32 option" where
  "lc_cmd mem lc = rd32 mem lc"

definition lc_cmdsize :: "memory \<Rightarrow> addr \<Rightarrow> u32 option" where
  "lc_cmdsize mem lc = rd32 mem (lc + 4)"

definition segment_vmaddr :: "memory \<Rightarrow> macho \<Rightarrow> addr \<Rightarrow> u64 option" where
  "segment_vmaddr mem m sc = field_long mem m sc 24 24"

definition segment_vmsize :: "memory \<Rightarrow> macho \<Rightarrow> addr \<Rightarrow> u64 option" where
  "segment_vmsize mem m sc = field_long mem m sc 32 28"

definition segment_fileoff :: "memory \<Rightarrow> macho \<Rightarrow> addr \<Rightarrow> u64 option" where
  "segment_fileoff mem m sc = field_long mem m sc 40 32"

definition segment_filesize :: "memory \<Rightarrow> macho \<Rightarrow> addr \<Rightarrow> u64 option" where
  "segment_filesize mem m sc = field_long mem m sc 48 36"

definition segment_initprot :: "memory \<Rightarrow> macho \<Rightarrow> addr \<Rightarrow> u32 option" where
  "segment_initprot mem m sc = field_u32 mem m sc 60 44"

definition segment_nsects :: "memory \<Rightarrow> macho \<Rightarrow> addr \<Rightarrow> u32 option" where
  "segment_nsects mem m sc = field_u32 mem m sc 64 48"

definition section_addr :: "memory \<Rightarrow> macho \<Rightarrow> addr \<Rightarrow> u64 option" where
  "section_addr mem m sect = field_long mem m sect 32 32"

definition section_size :: "memory \<Rightarrow> macho \<Rightarrow> addr \<Rightarrow> u64 option" where
  "section_size mem m sect = field_long mem m sect 40 36"

section \<open>Load commands and segments\<close>

definition macho_next_load_command ::
  "memory \<Rightarrow> macho \<Rightarrow> addr option \<Rightarrow> addr option option" where
  "macho_next_load_command mem m lc = do {
     hs \<leftarrow> macho_header_size mem m;
     let lc_start = mh m + hs;
     lc' \<leftarrow> (case lc of
              None \<Rightarrow> Some lc_start
            | Some p \<Rightarrow> do { cmdsize \<leftarrow> lc_cmdsize mem p; Some (p + unat cmdsize) });
     sizeofcmds \<leftarrow> header_sizeofcmds mem m;
     Some (if lc' \<ge> lc_start + unat sizeofcmds then None else Some lc')
   }"

partial_function (option) macho_find_load_command ::
  "memory \<Rightarrow> macho \<Rightarrow> addr option \<Rightarrow> u32 \<Rightarrow> addr option option" where
  "macho_find_load_command mem m lc cmd = do {
     lc' \<leftarrow> macho_next_load_command mem m lc;
     case lc' of
       None \<Rightarrow> Some None
     | Some p \<Rightarrow> do {
         c \<leftarrow> lc_cmd mem p;
         if c = cmd then Some (Some p) else macho_find_load_command mem m (Some p) cmd
       }
   }"

definition macho_next_segment :: "memory \<Rightarrow> macho \<Rightarrow> addr option \<Rightarrow> addr option option" where
  "macho_next_segment mem m sc = do {
     is64 \<leftarrow> macho_is_64 mem m;
     macho_find_load_command mem m sc (if is64 then LC_SEGMENT_64 else LC_SEGMENT)
   }"

text \<open>
  The loop of \<^verbatim>\<open>macho_segment_containing_address\<close>, with its variable \<^verbatim>\<open>lc\<close> as a
  parameter.
\<close>

partial_function (option) segment_containing_address_loop ::
  "memory \<Rightarrow> macho \<Rightarrow> addr option \<Rightarrow> u64 \<Rightarrow> addr option option" where
  "segment_containing_address_loop mem m lc a = do {
     lc' \<leftarrow> macho_next_segment mem m lc;
     case lc' of
       None \<Rightarrow> Some None
     | Some p \<Rightarrow> do {
         vmaddr \<leftarrow> segment_vmaddr mem m p;
         vmsize \<leftarrow> segment_vmsize mem m p;
         if vmaddr \<le> a \<and> a < vmaddr + vmsize then Some (Some p)
         else segment_containing_address_loop mem m (Some p) a
       }
   }"

definition macho_segment_containing_address ::
  "memory \<Rightarrow> macho \<Rightarrow> u64 \<Rightarrow> addr option option" where
  "macho_segment_containing_address mem m a = segment_containing_address_loop mem m None a"

text \<open>
  The loop of \<^verbatim>\<open>macho_section_containing_address\<close> from index \<open>i\<close> on, \<open>sect\<close> pointing
  to section \<open>i\<close>.
\<close>

function section_containing_address_loop ::
  "memory \<Rightarrow> macho \<Rightarrow> u32 \<Rightarrow> nat \<Rightarrow> u64 \<Rightarrow> nat \<Rightarrow> addr \<Rightarrow> addr option option" where
  "section_containing_address_loop mem m nsects sect_size a i sect =
     (if i < unat nsects then do {
        sectaddr \<leftarrow> section_addr mem m sect;
        sectsize \<leftarrow> section_size mem m sect;
        if sectaddr \<le> a \<and> a < sectaddr + sectsize then Some (Some sect)
        else section_containing_address_loop mem m nsects sect_size a (i + 1) (sect + sect_size)
      }
      else Some None)"
  by pat_completeness auto
termination
  by (relation "measure (\<lambda>(mem, m, nsects, sect_size, a, i, sect). unat nsects - i)") auto

declare section_containing_address_loop.simps [simp del]

definition macho_section_containing_address ::
  "memory \<Rightarrow> macho \<Rightarrow> addr \<Rightarrow> u64 \<Rightarrow> addr option option" where
  "macho_section_containing_address mem m lc a = do {
     nsects \<leftarrow> segment_nsects mem m lc;
     lc_size \<leftarrow> MACHO_STRUCT_SIZE mem m 72 56;
     sect_size \<leftarrow> MACHO_STRUCT_SIZE mem m 80 68;
     section_containing_address_loop mem m nsects sect_size a 0 (lc + lc_size)
   }"

text \<open>
  The sequence of commands that repeated calls of \<^verbatim>\<open>macho_next_load_command\<close> return,
  each call given the result of the one before, until a call returns \<^verbatim>\<open>NULL\<close>;
  \<open>load_commands\<close> starts from \<^verbatim>\<open>NULL\<close>. The result is \<open>None\<close> when the calls never
  return \<^verbatim>\<open>NULL\<close>.
\<close>

partial_function (option) load_commands_from ::
  "memory \<Rightarrow> macho \<Rightarrow> addr option \<Rightarrow> addr list option" where
  "load_commands_from mem m lc = do {
     lc' \<leftarrow> macho_next_load_command mem m lc;
     case lc' of
       None \<Rightarrow> Some []
     | Some p \<Rightarrow> do { rest \<leftarrow> load_commands_from mem m (Some p); Some (p # rest) }
   }"

definition load_commands :: "memory \<Rightarrow> macho \<Rightarrow> addr list option" where
  "load_commands mem m = load_commands_from mem m None"

fun cmdsize_sum :: "memory \<Rightarrow> addr list \<Rightarrow> nat option" where
  "cmdsize_sum mem [] = Some 0"
| "cmdsize_sum mem (p # ps) = do {
     c \<leftarrow> lc_cmdsize mem p;
     s \<leftarrow> cmdsize_sum mem ps;
     Some (unat c + s)
   }"

text \<open>
  The property of the specification, as it is stated: the sequence is finite, the declared
  lengths of its commands sum to at most \<open>sizeofcmds\<close>, and it is empty exactly when
  \<open>sizeofcmds\<close> is 0.
\<close>

definition command_table_claim :: "memory \<Rightarrow> macho \<Rightarrow> bool" where
  "command_table_claim mem m =
     (case load_commands mem m of None \<Rightarrow> False | Some cs \<Rightarrow>
      case cmdsize_sum mem cs of None \<Rightarrow> False | Some s \<Rightarrow>
      case header_sizeofcmds mem m of None \<Rightarrow> False | Some n \<Rightarrow>
        s \<le> unat n \<and> (cs = [] \<longleftrightarrow> n = 0))"

text \<open>
  The commands that the iteration reaches in a table that starts at \<open>start\<close> and ends
  before \<open>e\<close>: the first one when the table is not empty, and the one that follows a
  reached command by its \<open>cmdsize\<close> when that one starts before \<open>e\<close>.
\<close>

inductive reached :: "memory \<Rightarrow> addr \<Rightarrow> addr \<Rightarrow> addr \<Rightarrow> bool" for mem start e where
  first: "start < e \<Longrightarrow> reached mem start e start"
| step: "reached mem start e p \<Longrightarrow> lc_cmdsize mem p = Some c \<Longrightarrow> p + unat c < e \<Longrightarrow>
         reached mem start e (p + unat c)"

text \<open>
  A 32-bit image of 44 bytes at address 4096 whose header declares a command table of
  8 bytes, and whose only command declares a length of 16.
\<close>

definition image_overlong :: "byte list" where
  "image_overlong =
     [0xce, 0xfa, 0xed, 0xfe,  0, 0, 0, 0,  0, 0, 0, 0,  0, 0, 0, 0,
      1, 0, 0, 0,  8, 0, 0, 0,  0, 0, 0, 0,
      0x1b, 0, 0, 0,  16, 0, 0, 0,  0, 0, 0, 0,  0, 0, 0, 0]"

text \<open>The same image with a table of 16 bytes that holds two commands of 8 bytes.\<close>

definition image_two_commands :: "byte list" where
  "image_two_commands =
     [0xce, 0xfa, 0xed, 0xfe,  0, 0, 0, 0,  0, 0, 0, 0,  0, 0, 0, 0,
      2, 0, 0, 0,  16, 0, 0, 0,  0, 0, 0, 0,
      0x1b, 0, 0, 0,  8, 0, 0, 0,  0x1b, 0, 0, 0,  8, 0, 0, 0]"

section \<open>Symbol table and string table\<close>

text \<open>
  The fields of \<^verbatim>\<open>struct symtab_command\<close> that the code reads. The functions receive a
  pointer to the structure and only read it, so the model passes the structure itself.
\<close>

record symtab_command =
  symoff :: u32
  nsyms :: u32
  stroff :: u32
  strsize :: u32

definition macho_get_nlist :: "memory \<Rightarrow> macho \<Rightarrow> symtab_command \<Rightarrow> nat \<Rightarrow> addr option" where
  "macho_get_nlist mem m symtab idx = do {
     nlist_size \<leftarrow> MACHO_STRUCT_SIZE mem m 16 12;
     Some (mh m + unat (symoff symtab) + idx * nlist_size)
   }"

definition nlist_n_strx :: "memory \<Rightarrow> macho \<Rightarrow> addr \<Rightarrow> u32 option" where
  "nlist_n_strx mem m nl = field_u32 mem m nl 0 0"

definition nlist_n_type :: "memory \<Rightarrow> macho \<Rightarrow> addr \<Rightarrow> byte option" where
  "nlist_n_type mem m nl = field_u8 mem m nl 4 4"

definition nlist_n_sect :: "memory \<Rightarrow> macho \<Rightarrow> addr \<Rightarrow> byte option" where
  "nlist_n_sect mem m nl = field_u8 mem m nl 5 5"

definition nlist_n_value :: "memory \<Rightarrow> macho \<Rightarrow> addr \<Rightarrow> u64 option" where
  "nlist_n_value mem m nl = field_long mem m nl 8 8"

subsection \<open>Size guess\<close>

definition guess_symbol_size :: "memory \<Rightarrow> macho \<Rightarrow> u64 \<Rightarrow> u64 \<Rightarrow> u64 option" where
  "guess_symbol_size mem m a next = do {
     let size0 = (if next \<noteq> - 1 then next - a else - 1);
     sc \<leftarrow> macho_segment_containing_address mem m a;
     size2 \<leftarrow> (case sc of
        None \<Rightarrow> Some size0
      | Some scp \<Rightarrow> do {
          sect \<leftarrow> macho_section_containing_address mem m scp a;
          size1 \<leftarrow> (case sect of
             None \<Rightarrow> Some size0
           | Some sp \<Rightarrow> do {
               sect_addr \<leftarrow> section_addr mem m sp;
               sect_size \<leftarrow> section_size mem m sp;
               let sect_limited_size = sect_addr + sect_size - a;
               Some (if sect_limited_size < size0 then sect_limited_size else size0)
             });
          vmaddr \<leftarrow> segment_vmaddr mem m scp;
          vmsize \<leftarrow> segment_vmsize mem m scp;
          let segment_limited_size = vmaddr + vmsize - a;
          Some (if segment_limited_size < size1 then segment_limited_size else size1)
        });
     Some (if size2 = - 1 then 0 else size2)
   }"

subsection \<open>Strings\<close>

definition macho_symtab_string :: "macho \<Rightarrow> symtab_command \<Rightarrow> u32 \<Rightarrow> addr option" where
  "macho_symtab_string m symtab strx =
     (let base = mh m + unat (stroff symtab) in
      if strx < 4 \<or> strx \<ge> strsize symtab then None else Some (base + unat strx))"

text \<open>
  A C string argument is the list of its bytes before the terminator; \<open>name_at name k\<close>
  is the byte that \<^verbatim>\<open>name[k]\<close> reads, the terminator once the bytes are used up.
\<close>

definition name_at :: "byte list \<Rightarrow> nat \<Rightarrow> byte" where
  "name_at name k = (if k < length name then name ! k else 0)"

text \<open>\<^verbatim>\<open>while (str < end && *str != 0) str++;\<close>\<close>

function skip_to_nul :: "memory \<Rightarrow> addr \<Rightarrow> addr \<Rightarrow> addr option" where
  "skip_to_nul mem e str =
     (if str < e then do {
        c \<leftarrow> rd8 mem str;
        if c \<noteq> 0 then skip_to_nul mem e (str + 1) else Some str
      }
      else Some str)"
  by pat_completeness auto
termination
  by (relation "measure (\<lambda>(mem, e, str). e - str)") auto

declare skip_to_nul.simps [simp del]

lemma skip_to_nul_ge: "skip_to_nul mem e str = Some str' \<Longrightarrow> str \<le> str'"
proof (induction mem e str rule: skip_to_nul.induct)
  case (1 mem e str)
  show ?case
  proof (cases "str < e")
    case True
    with "1.prems" obtain c where c: "rd8 mem str = Some c"
      by (subst (asm) skip_to_nul.simps) (auto split: Option.bind_splits)
    show ?thesis
    proof (cases "c = 0")
      case True
      with \<open>str < e\<close> c "1.prems" show ?thesis
        by (subst (asm) skip_to_nul.simps) simp
    next
      case False
      with \<open>str < e\<close> c "1.prems" have "skip_to_nul mem e (str + 1) = Some str'"
        by (subst (asm) skip_to_nul.simps) simp
      from "1.IH" [OF \<open>str < e\<close> c False this] show ?thesis by simp
    qed
  next
    case False
    with "1.prems" show ?thesis
      by (subst (asm) skip_to_nul.simps) simp
  qed
qed

text \<open>
  The two nested loops of \<^verbatim>\<open>macho_symtab_string_index\<close>. The parameters are the
  variables \<^verbatim>\<open>strx\<close>, \<^verbatim>\<open>p\<close> (as an index into \<^verbatim>\<open>name\<close>) and \<^verbatim>\<open>str\<close>; a step of the
  inner loop keeps \<open>strx\<close> and advances \<open>p\<close> and \<open>str\<close>; a \<^verbatim>\<open>break\<close> runs the \<^verbatim>\<open>str++\<close> of the
  outer loop and starts its next round.
\<close>

function string_index_loop ::
  "memory \<Rightarrow> byte list \<Rightarrow> addr \<Rightarrow> addr \<Rightarrow> u32 \<Rightarrow> nat \<Rightarrow> addr \<Rightarrow> u32 option" where
  "string_index_loop mem name base e strx p str =
     (if str \<ge> e then Some 0
      else do {
        c \<leftarrow> rd8 mem str;
        if name_at name p \<noteq> c then do {
          str' \<leftarrow> skip_to_nul mem e str;
          string_index_loop mem name base e (of_nat (str' + 1 - base)) 0 (str' + 1)
        }
        else if name_at name p = 0 then Some strx
        else string_index_loop mem name base e strx (p + 1) (str + 1)
      })"
  by pat_completeness auto
termination
  by (relation "measure (\<lambda>(mem, name, base, e, strx, p, str). e - str)")
    (auto dest: skip_to_nul_ge)

declare string_index_loop.simps [simp del]

definition macho_symtab_string_index ::
  "memory \<Rightarrow> macho \<Rightarrow> symtab_command \<Rightarrow> byte list \<Rightarrow> u32 option" where
  "macho_symtab_string_index mem m symtab name =
     (let base = mh m + unat (stroff symtab);
          str = base + 4;
          e = base + unat (strsize symtab)
      in string_index_loop mem name base e (of_nat (str - base)) 0 str)"

subsection \<open>Symbols\<close>

text \<open>
  The loops over the symbol table run an index \<^verbatim>\<open>i\<close> from 0 while \<^verbatim>\<open>i < symtab->nsyms\<close>; the
  index stays below \<open>2 ^ 32\<close> and is a natural number here. Each loop function is the loop
  from index \<open>i\<close> on.
\<close>

function for_each_symbol_loop ::
  "memory \<Rightarrow> macho \<Rightarrow> symtab_command \<Rightarrow> ('c \<Rightarrow> addr option \<Rightarrow> u64 \<Rightarrow> bool \<times> 'c) \<Rightarrow>
   nat \<Rightarrow> bool \<Rightarrow> 'c \<Rightarrow> 'c option" where
  "for_each_symbol_loop mem m symtab callback i stop context =
     (if \<not> stop \<and> i < unat (nsyms symtab) then do {
        nl_i \<leftarrow> macho_get_nlist mem m symtab i;
        n_strx \<leftarrow> nlist_n_strx mem m nl_i;
        n_type \<leftarrow> nlist_n_type mem m nl_i;
        if n_type AND N_STAB \<noteq> 0 \<or> n_type AND N_TYPE \<noteq> N_SECT
        then for_each_symbol_loop mem m symtab callback (i + 1) stop context
        else let symbol = macho_symtab_string m symtab n_strx in
          if symbol = None
          then for_each_symbol_loop mem m symtab callback (i + 1) stop context
          else do {
            address \<leftarrow> nlist_n_value mem m nl_i;
            let (stop', context') = callback context symbol address;
            for_each_symbol_loop mem m symtab callback (i + 1) stop' context'
          }
      }
      else Some context)"
  by pat_completeness auto
termination
  by (relation "measure (\<lambda>(mem, m, symtab, callback, i, stop, context). unat (nsyms symtab) - i)")
    auto

declare for_each_symbol_loop.simps [simp del]

text \<open>
  The callback receives the client context, the name (a \<^verbatim>\<open>const char *\<close>, which the type
  allows to be \<^verbatim>\<open>NULL\<close>) and the address; it returns whether to stop, and the context as
  it has left it.
\<close>

definition macho_for_each_symbol ::
  "memory \<Rightarrow> macho \<Rightarrow> symtab_command \<Rightarrow> ('c \<Rightarrow> addr option \<Rightarrow> u64 \<Rightarrow> bool \<times> 'c) \<Rightarrow>
   'c \<Rightarrow> 'c option" where
  "macho_for_each_symbol mem m symtab callback context =
     for_each_symbol_loop mem m symtab callback 0 False context"

function next_symbol_loop ::
  "memory \<Rightarrow> macho \<Rightarrow> symtab_command \<Rightarrow> u64 \<Rightarrow> nat \<Rightarrow> u64 \<Rightarrow> u64 option" where
  "next_symbol_loop mem m symtab a i next =
     (if i < unat (nsyms symtab) then do {
        nl_i \<leftarrow> macho_get_nlist mem m symtab i;
        n_value \<leftarrow> nlist_n_value mem m nl_i;
        next_symbol_loop mem m symtab a (i + 1) (if n_value > a \<and> n_value < next then n_value else next)
      }
      else Some next)"
  by pat_completeness auto
termination
  by (relation "measure (\<lambda>(mem, m, symtab, a, i, next). unat (nsyms symtab) - i)") auto

declare next_symbol_loop.simps [simp del]

definition macho_next_symbol :: "memory \<Rightarrow> macho \<Rightarrow> symtab_command \<Rightarrow> u64 \<Rightarrow> u64 option" where
  "macho_next_symbol mem m symtab a = next_symbol_loop mem m symtab a 0 (- 1)"

text \<open>
  The loop of \<^verbatim>\<open>macho_resolve_symbol\<close>: \<open>Inl\<close> is a \<^verbatim>\<open>return\<close> from inside the loop, \<open>Inr\<close>
  the values of \<^verbatim>\<open>addr0\<close> and \<^verbatim>\<open>symidx\<close> when the loop is left by \<^verbatim>\<open>break\<close> or by its
  condition.
\<close>

function resolve_symbol_loop ::
  "memory \<Rightarrow> macho \<Rightarrow> symtab_command \<Rightarrow> u32 \<Rightarrow> nat \<Rightarrow> (macho_result + u64 \<times> u32) option" where
  "resolve_symbol_loop mem m symtab strx i =
     (if i < unat (nsyms symtab) then do {
        nl_i \<leftarrow> macho_get_nlist mem m symtab i;
        n_strx \<leftarrow> nlist_n_strx mem m nl_i;
        if n_strx = strx then do {
          n_type \<leftarrow> nlist_n_type mem m nl_i;
          if n_type AND N_TYPE = N_UNDF then Some (Inl MACHO_NOT_FOUND)
          else if n_type AND N_TYPE \<noteq> N_SECT then Some (Inl MACHO_ERROR)
          else do {
            addr0 \<leftarrow> nlist_n_value mem m nl_i;
            Some (Inr (addr0, of_nat i))
          }
        }
        else resolve_symbol_loop mem m symtab strx (i + 1)
      }
      else Some (Inr (0, - 1)))"
  by pat_completeness auto
termination
  by (relation "measure (\<lambda>(mem, m, symtab, strx, i). unat (nsyms symtab) - i)") auto

declare resolve_symbol_loop.simps [simp del]

text \<open>
  The out-parameters \<^verbatim>\<open>addr\<close> and \<^verbatim>\<open>size\<close> may be \<^verbatim>\<open>NULL\<close>: \<open>want_addr\<close> and \<open>want_size\<close>
  say whether they are not, and the result carries what the call stores through each
  (\<open>None\<close> when it stores nothing).
\<close>

definition macho_resolve_symbol ::
  "memory \<Rightarrow> macho \<Rightarrow> symtab_command \<Rightarrow> byte list \<Rightarrow> bool \<Rightarrow> bool \<Rightarrow>
   (macho_result \<times> u64 option \<times> u64 option) option" where
  "macho_resolve_symbol mem m symtab symbol want_addr want_size = do {
     strx \<leftarrow> macho_symtab_string_index mem m symtab symbol;
     if strx = 0 then Some (MACHO_NOT_FOUND, None, None)
     else do {
       r \<leftarrow> resolve_symbol_loop mem m symtab strx 0;
       case r of
         Inl res \<Rightarrow> Some (res, None, None)
       | Inr (addr0, symidx) \<Rightarrow>
           if symidx = - 1 then Some (MACHO_NOT_FOUND, None, None)
           else do {
             sz \<leftarrow> (if want_size then do {
                      next \<leftarrow> macho_next_symbol mem m symtab addr0;
                      g \<leftarrow> guess_symbol_size mem m addr0 next;
                      Some (Some g)
                    } else Some None);
             Some (MACHO_SUCCESS, if want_addr then Some addr0 else None, sz)
           }
     }
   }"

definition macho_guess_symbol_size ::
  "memory \<Rightarrow> macho \<Rightarrow> symtab_command option \<Rightarrow> u64 \<Rightarrow> u64 option" where
  "macho_guess_symbol_size mem m symtab a = do {
     next \<leftarrow> (case symtab of None \<Rightarrow> Some (- 1) | Some st \<Rightarrow> macho_next_symbol mem m st a);
     guess_symbol_size mem m a next
   }"

text \<open>
  The loop of \<^verbatim>\<open>macho_resolve_address\<close>. Its state is \<open>None\<close> while \<^verbatim>\<open>sym\<close> is \<^verbatim>\<open>NULL\<close> (then
  \<^verbatim>\<open>symidx\<close> and \<^verbatim>\<open>sym_addr\<close> are not initialized), and the values of \<^verbatim>\<open>sym\<close>, \<^verbatim>\<open>symidx\<close> and
  \<^verbatim>\<open>sym_addr\<close> afterwards.
\<close>

function resolve_address_loop ::
  "memory \<Rightarrow> macho \<Rightarrow> symtab_command \<Rightarrow> u64 \<Rightarrow> nat \<Rightarrow> (addr \<times> nat \<times> u64) option \<Rightarrow>
   (addr \<times> nat \<times> u64) option option" where
  "resolve_address_loop mem m symtab a i best =
     (if i < unat (nsyms symtab) then do {
        nl_i \<leftarrow> macho_get_nlist mem m symtab i;
        n_type \<leftarrow> nlist_n_type mem m nl_i;
        if n_type AND N_TYPE \<noteq> N_SECT
        then resolve_address_loop mem m symtab a (i + 1) best
        else do {
          n_value \<leftarrow> nlist_n_value mem m nl_i;
          if (case best of None \<Rightarrow> True | Some (sym_nl, symidx, sym_addr) \<Rightarrow> sym_addr < n_value)
             \<and> n_value \<le> a
          then resolve_address_loop mem m symtab a (i + 1) (Some (nl_i, i, n_value))
          else resolve_address_loop mem m symtab a (i + 1) best
        }
      }
      else Some best)"
  by pat_completeness auto
termination
  by (relation "measure (\<lambda>(mem, m, symtab, a, i, best). unat (nsyms symtab) - i)") auto

declare resolve_address_loop.simps [simp del]

text \<open>
  The result carries the status and what the call stores through \<^verbatim>\<open>name\<close>, \<^verbatim>\<open>size\<close> and
  \<^verbatim>\<open>offset\<close>; the name stored is itself a pointer that may be \<^verbatim>\<open>NULL\<close>.
\<close>

definition macho_resolve_address ::
  "memory \<Rightarrow> macho \<Rightarrow> symtab_command \<Rightarrow> u64 \<Rightarrow> bool \<Rightarrow> bool \<Rightarrow> bool \<Rightarrow>
   (macho_result \<times> addr option option \<times> u64 option \<times> u64 option) option" where
  "macho_resolve_address mem m symtab a want_name want_size want_offset = do {
     best \<leftarrow> resolve_address_loop mem m symtab a 0 None;
     case best of
       None \<Rightarrow> Some (MACHO_NOT_FOUND, None, None, None)
     | Some (sym_nl, symidx, sym_addr) \<Rightarrow> do {
         sym_sect \<leftarrow> nlist_n_sect mem m sym_nl;
         if ucast sym_sect = NO_SECT then Some (MACHO_ERROR, None, None, None)
         else do {
           name \<leftarrow> (if want_name then do {
                      sym_strx \<leftarrow> nlist_n_strx mem m sym_nl;
                      Some (Some (macho_symtab_string m symtab sym_strx))
                    } else Some None);
           sz \<leftarrow> (if want_size then do {
                    next_addr \<leftarrow> macho_next_symbol mem m symtab sym_addr;
                    g \<leftarrow> guess_symbol_size mem m sym_addr next_addr;
                    Some (Some g)
                  } else Some None);
           Some (MACHO_SUCCESS, name, sz, if want_offset then Some (a - sym_addr) else None)
         }
       }
   }"

section \<open>Pattern search\<close>

text \<open>The \<open>n\<close> bytes at address \<open>a\<close>, when all of them are readable.\<close>

definition rd_bytes :: "memory \<Rightarrow> addr \<Rightarrow> nat \<Rightarrow> byte list option" where
  "rd_bytes mem a n = those (map (\<lambda>i. mem (a + i)) [0..<n])"

text \<open>
  The C library's \<^verbatim>\<open>memmem\<close>: the first position at which the needle occurs in the
  haystack, \<^verbatim>\<open>NULL\<close> when it does not occur. For an empty needle it returns \<^verbatim>\<open>NULL\<close>, as
  the library of the system that defines the Mach-O headers does.
\<close>

fun first_occurrence :: "byte list \<Rightarrow> byte list \<Rightarrow> nat option" where
  "first_occurrence needle [] = None"
| "first_occurrence needle (b # bs) =
     (if take (length needle) (b # bs) = needle then Some 0
      else map_option Suc (first_occurrence needle bs))"

definition memmem :: "memory \<Rightarrow> addr \<Rightarrow> nat \<Rightarrow> byte list \<Rightarrow> addr option option" where
  "memmem mem big big_len little = do {
     hay \<leftarrow> rd_bytes mem big big_len;
     Some (if little = [] then None
           else map_option (\<lambda>k. big + k) (first_occurrence little hay))
   }"

text \<open>
  The loop of \<^verbatim>\<open>macho_search_data\<close>; \<open>pat\<close> holds the \<^verbatim>\<open>size\<close> bytes at \<^verbatim>\<open>data\<close>. The result
  carries the status and what the call stores through \<^verbatim>\<open>addr\<close>.
\<close>

partial_function (option) search_data_loop ::
  "memory \<Rightarrow> macho \<Rightarrow> byte list \<Rightarrow> u32 \<Rightarrow> addr option \<Rightarrow> (macho_result \<times> u64 option) option" where
  "search_data_loop mem m pat minprot lc = do {
     lc' \<leftarrow> macho_next_segment mem m lc;
     case lc' of
       None \<Rightarrow> Some (MACHO_NOT_FOUND, None)
     | Some p \<Rightarrow> do {
         initprot \<leftarrow> segment_initprot mem m p;
         if initprot AND minprot \<noteq> minprot then search_data_loop mem m pat minprot (Some p)
         else do {
           fileoff \<leftarrow> segment_fileoff mem m p;
           filesize \<leftarrow> segment_filesize mem m p;
           let base = mh m + unat fileoff;
           found \<leftarrow> memmem mem base (unat filesize) pat;
           case found of
             None \<Rightarrow> search_data_loop mem m pat minprot (Some p)
           | Some f \<Rightarrow> do {
               let offset = f - base;
               vmaddr \<leftarrow> segment_vmaddr mem m p;
               Some (MACHO_SUCCESS, Some (vmaddr + of_nat offset))
             }
         }
       }
   }"

definition macho_search_data ::
  "memory \<Rightarrow> macho \<Rightarrow> byte list \<Rightarrow> u32 \<Rightarrow> (macho_result \<times> u64 option) option" where
  "macho_search_data mem m pat minprot = search_data_loop mem m pat minprot None"

section \<open>Notions of the specification\<close>

text \<open>
  The load commands of an image as the specification sees them: a segment with its
  \<open>cmdsize\<close>, runtime address, runtime size and sections (in the order of the file), or
  another command with its \<open>cmd\<close> and \<open>cmdsize\<close>.
\<close>

record section_entry =
  sect_start :: u64
  sect_length :: u64

datatype command_entry =
    Segment_entry u32 u64 u64 "section_entry list"
  | Other_entry u32 u32

primrec entry_cmdsize :: "command_entry \<Rightarrow> u32" where
  "entry_cmdsize (Segment_entry sz va vs sects) = sz"
| "entry_cmdsize (Other_entry cmd sz) = sz"

text \<open>The command that holds a segment in an image of the given width.\<close>

definition segment_cmd :: "bool \<Rightarrow> u32" where
  "segment_cmd is64 = (if is64 then LC_SEGMENT_64 else LC_SEGMENT)"

text \<open>
  The memory holds the sections \<open>sects\<close> one after the other from address \<open>q\<close> on, \<open>step\<close>
  bytes apart.
\<close>

fun sections_at :: "memory \<Rightarrow> macho \<Rightarrow> nat \<Rightarrow> addr \<Rightarrow> section_entry list \<Rightarrow> bool" where
  "sections_at mem m step q [] = True"
| "sections_at mem m step q (s # ss) =
     (section_addr mem m q = Some (sect_start s) \<and> section_size mem m q = Some (sect_length s) \<and>
      sections_at mem m step (q + step) ss)"

text \<open>
  The memory holds the command \<open>c\<close> at address \<open>p\<close>: a segment command is followed by its
  sections, and \<open>nsects\<close> is their number.
\<close>

fun command_at :: "memory \<Rightarrow> macho \<Rightarrow> bool \<Rightarrow> addr \<Rightarrow> command_entry \<Rightarrow> bool" where
  "command_at mem m is64 p (Other_entry cmd sz) =
     (lc_cmd mem p = Some cmd \<and> lc_cmdsize mem p = Some sz \<and> cmd \<noteq> segment_cmd is64)"
| "command_at mem m is64 p (Segment_entry sz va vs sects) =
     (lc_cmd mem p = Some (segment_cmd is64) \<and> lc_cmdsize mem p = Some sz \<and>
      segment_vmaddr mem m p = Some va \<and> segment_vmsize mem m p = Some vs \<and>
      length sects < 2 ^ 32 \<and> segment_nsects mem m p = Some (of_nat (length sects)) \<and>
      sections_at mem m (if is64 then 80 else 68) (p + (if is64 then 72 else 56)) sects)"

text \<open>
  The memory holds the commands \<open>cs\<close> from address \<open>p\<close> on, each one \<open>cmdsize\<close> bytes after
  the one before, and the first address at or after the end \<open>e\<close> of the table follows the
  last one.
\<close>

fun commands_at :: "memory \<Rightarrow> macho \<Rightarrow> bool \<Rightarrow> addr \<Rightarrow> addr \<Rightarrow> command_entry list \<Rightarrow> bool" where
  "commands_at mem m is64 e p [] = (e \<le> p)"
| "commands_at mem m is64 e p (c # cs) =
     (p < e \<and> command_at mem m is64 p c \<and>
      commands_at mem m is64 e (p + unat (entry_cmdsize c)) cs)"

text \<open>
  The image holds the command table \<open>cs\<close>: its commands start after the header and end
  \<open>sizeofcmds\<close> bytes later.
\<close>

definition image_commands :: "memory \<Rightarrow> macho \<Rightarrow> command_entry list \<Rightarrow> bool" where
  "image_commands mem m cs =
     (case macho_is_64 mem m of None \<Rightarrow> False | Some is64 \<Rightarrow>
      case header_sizeofcmds mem m of None \<Rightarrow> False | Some n \<Rightarrow>
        commands_at mem m is64 (mh m + (if is64 then 32 else 28) + unat n)
          (mh m + (if is64 then 32 else 28)) cs)"

text \<open>
  The containment test of the specification, \<open>start \<le> a < start + len\<close>, and with it the
  first segment (in command order) that contains an address and the first section of a
  segment that does.
\<close>

definition address_in :: "u64 \<Rightarrow> u64 \<Rightarrow> u64 \<Rightarrow> bool" where
  "address_in start len a = (start \<le> a \<and> a < start + len)"

fun containing_segment :: "command_entry list \<Rightarrow> u64 \<Rightarrow> (u64 \<times> u64 \<times> section_entry list) option" where
  "containing_segment [] a = None"
| "containing_segment (Segment_entry sz va vs sects # cs) a =
     (if address_in va vs a then Some (va, vs, sects) else containing_segment cs a)"
| "containing_segment (Other_entry cmd sz # cs) a = containing_segment cs a"

definition containing_section :: "section_entry list \<Rightarrow> u64 \<Rightarrow> section_entry option" where
  "containing_section sects a = find (\<lambda>s. address_in (sect_start s) (sect_length s) a) sects"

text \<open>The segment that \<^verbatim>\<open>macho_next_segment\<close> finds: the first one of the rest of the table.\<close>

fun first_segment_at :: "addr \<Rightarrow> command_entry list \<Rightarrow> addr option" where
  "first_segment_at p [] = None"
| "first_segment_at p (Segment_entry sz va vs sects # cs) = Some p"
| "first_segment_at p (Other_entry cmd sz # cs) = first_segment_at (p + unat sz) cs"

text \<open>
  The bounds of the specification that apply to an address: (a) the distance to the next
  symbol when there is one (\<open>- 1\<close>, all bits set, stands for "no next symbol"), (b) the
  distance to the end of the containing section when the address falls in a section of the
  containing segment, (c) the distance to the end of the containing segment when a segment
  contains the address.
\<close>

definition next_symbol_bound :: "u64 \<Rightarrow> u64 \<Rightarrow> u64 list" where
  "next_symbol_bound a next = (if next \<noteq> - 1 then [next - a] else [])"

definition structural_bounds :: "command_entry list \<Rightarrow> u64 \<Rightarrow> u64 list" where
  "structural_bounds cs a =
     (case containing_segment cs a of
        None \<Rightarrow> []
      | Some (va, vs, sects) \<Rightarrow>
          (case containing_section sects a of
             None \<Rightarrow> []
           | Some s \<Rightarrow> [sect_start s + sect_length s - a]) @ [va + vs - a])"

definition applicable_bounds :: "command_entry list \<Rightarrow> u64 \<Rightarrow> u64 \<Rightarrow> u64 list" where
  "applicable_bounds cs a next = next_symbol_bound a next @ structural_bounds cs a"

text \<open>The size of the specification: the least applicable bound, 0 when none applies.\<close>

definition least_bound :: "u64 list \<Rightarrow> u64" where
  "least_bound bs = (if bs = [] then 0 else Min (set bs))"

text \<open>
  The size that the code computes from the bounds: it starts from the value \<open>- 1\<close>
  (all bits set) for "no bound yet" and reports 0 when it ends with that value.
\<close>

definition least_bound_sentinel :: "u64 list \<Rightarrow> u64" where
  "least_bound_sentinel bs = (if bs = [] \<or> Min (set bs) = - 1 then 0 else Min (set bs))"

text \<open>
  The memory at \<open>p\<close> holds the C string \<open>s\<close>: the bytes of \<open>s\<close>, none of them 0, and the
  terminator after them.
\<close>

definition c_string :: "memory \<Rightarrow> addr \<Rightarrow> byte list \<Rightarrow> bool" where
  "c_string mem p s =
     (0 \<notin> set s \<and> (\<forall>k<length s. mem (p + k) = Some (s ! k)) \<and> mem (p + length s) = Some 0)"

text \<open>
  The round trip of the specification: \<^verbatim>\<open>macho_symtab_string\<close>, applied to the index that
  \<^verbatim>\<open>macho_symtab_string_index\<close> returns for a name, returns a pointer to that name.
\<close>

definition string_round_trip :: "memory \<Rightarrow> macho \<Rightarrow> symtab_command \<Rightarrow> byte list \<Rightarrow> bool" where
  "string_round_trip mem m symtab name =
     (case macho_symtab_string_index mem m symtab name of None \<Rightarrow> False | Some strx \<Rightarrow>
      case macho_symtab_string m symtab strx of None \<Rightarrow> False | Some p \<Rightarrow> c_string mem p name)"

text \<open>
  The name is stored in the string blob: as a C string with its terminator, at an index
  that is at least 4 and inside the blob.
\<close>

definition name_in_blob :: "memory \<Rightarrow> macho \<Rightarrow> symtab_command \<Rightarrow> byte list \<Rightarrow> bool" where
  "name_in_blob mem m symtab name =
     (\<exists>i<unat (strsize symtab). 4 \<le> i \<and> i + length name < unat (strsize symtab) \<and>
        c_string mem (mh m + unat (stroff symtab) + i) name)"

text \<open>
  A symbol entry as the specification describes it: string-table index, type byte,
  section index and address. \<open>sym_entry\<close> reads entry \<open>i\<close> of the symbol table.
\<close>

record symbol_entry =
  entry_strx :: u32
  entry_type :: byte
  entry_sect :: byte
  entry_value :: u64

definition sym_entry :: "memory \<Rightarrow> macho \<Rightarrow> symtab_command \<Rightarrow> nat \<Rightarrow> symbol_entry option" where
  "sym_entry mem m symtab i = do {
     nl \<leftarrow> macho_get_nlist mem m symtab i;
     x \<leftarrow> nlist_n_strx mem m nl;
     t \<leftarrow> nlist_n_type mem m nl;
     s \<leftarrow> nlist_n_sect mem m nl;
     v \<leftarrow> nlist_n_value mem m nl;
     Some \<lparr> entry_strx = x, entry_type = t, entry_sect = s, entry_value = v \<rparr>
   }"

text \<open>The symbol table is readable and \<open>ents\<close> lists its entries.\<close>

definition symbol_table :: "memory \<Rightarrow> macho \<Rightarrow> symtab_command \<Rightarrow> (nat \<Rightarrow> symbol_entry) \<Rightarrow> bool" where
  "symbol_table mem m symtab ents =
     (\<forall>j<unat (nsyms symtab). sym_entry mem m symtab j = Some (ents j))"

text \<open>The size guess that both resolution functions attach to an address.\<close>

definition guessed_size :: "memory \<Rightarrow> macho \<Rightarrow> symtab_command \<Rightarrow> u64 \<Rightarrow> u64 option" where
  "guessed_size mem m symtab a = do {
     next \<leftarrow> macho_next_symbol mem m symtab a;
     guess_symbol_size mem m a next
   }"

text \<open>
  The next symbol of the specification: the least address of an entry that is strictly
  greater than the given address, and the value \<open>- 1\<close> (all bits set) when there is none.
\<close>

definition next_symbol_after :: "(nat \<Rightarrow> symbol_entry) \<Rightarrow> nat \<Rightarrow> u64 \<Rightarrow> u64" where
  "next_symbol_after ents n a =
     (let later = filter (\<lambda>v. a < v) (map (\<lambda>j. entry_value (ents j)) [0..<n])
      in if later = [] then - 1 else Min (set later))"

text \<open>
  The guessed size of a symbol at address \<open>a\<close>, in an image with the command table \<open>cs\<close>
  and the symbol entries \<open>ents\<close>: the size guess with the next symbol after \<open>a\<close>.
\<close>

definition size_guess ::
  "command_entry list \<Rightarrow> symtab_command \<Rightarrow> (nat \<Rightarrow> symbol_entry) \<Rightarrow> u64 \<Rightarrow> u64" where
  "size_guess cs symtab ents a =
     least_bound_sentinel
       (applicable_bounds cs a (next_symbol_after ents (unat (nsyms symtab)) a))"

text \<open>
  \<^verbatim>\<open>macho_resolve_symbol\<close> in the words of the specification, for a name whose string
  index \<open>strx\<close> has been found: the first entry (lowest index) whose string index equals
  \<open>strx\<close> decides; not found when there is none or when its type is undefined, an error
  when its type is neither undefined nor section-relative, and otherwise success with its
  address and a guessed size.
\<close>

definition resolve_symbol_spec ::
  "command_entry list \<Rightarrow> symtab_command \<Rightarrow> (nat \<Rightarrow> symbol_entry) \<Rightarrow> u32 \<Rightarrow> bool \<Rightarrow> bool \<Rightarrow>
   macho_result \<times> u64 option \<times> u64 option" where
  "resolve_symbol_spec cs symtab ents strx want_addr want_size =
     (case find (\<lambda>j. entry_strx (ents j) = strx) [0..<unat (nsyms symtab)] of
        None \<Rightarrow> (MACHO_NOT_FOUND, None, None)
      | Some k \<Rightarrow>
          if entry_type (ents k) AND N_TYPE = N_UNDF then (MACHO_NOT_FOUND, None, None)
          else if entry_type (ents k) AND N_TYPE \<noteq> N_SECT then (MACHO_ERROR, None, None)
          else (MACHO_SUCCESS,
                if want_addr then Some (entry_value (ents k)) else None,
                if want_size then Some (size_guess cs symtab ents (entry_value (ents k)))
                else None))"

text \<open>
  Entry \<open>j\<close> is a candidate for the address \<open>a\<close>: it is section-relative and its address
  is at most \<open>a\<close>.
\<close>

definition candidate :: "(nat \<Rightarrow> symbol_entry) \<Rightarrow> u64 \<Rightarrow> nat \<Rightarrow> bool" where
  "candidate ents a j = (entry_type (ents j) AND N_TYPE = N_SECT \<and> entry_value (ents j) \<le> a)"

text \<open>
  What a successful \<^verbatim>\<open>macho_resolve_address\<close> stores for the entry \<open>k\<close> it has selected,
  in the words of the specification: the entry's name, its guessed size and the offset of
  the address into the symbol, each one when it is asked for.
\<close>

definition resolve_address_outputs ::
  "command_entry list \<Rightarrow> macho \<Rightarrow> symtab_command \<Rightarrow> (nat \<Rightarrow> symbol_entry) \<Rightarrow> nat \<Rightarrow> u64 \<Rightarrow>
   bool \<Rightarrow> bool \<Rightarrow> bool \<Rightarrow> macho_result \<times> addr option option \<times> u64 option \<times> u64 option" where
  "resolve_address_outputs cs m symtab ents k a want_name want_size want_offset =
     (MACHO_SUCCESS,
      if want_name then Some (macho_symtab_string m symtab (entry_strx (ents k))) else None,
      if want_size then Some (size_guess cs symtab ents (entry_value (ents k))) else None,
      if want_offset then Some (a - entry_value (ents k)) else None)"

text \<open>The invariant of the loop of \<^verbatim>\<open>macho_resolve_address\<close> after the entries below \<open>n\<close>.\<close>

definition best_inv ::
  "memory \<Rightarrow> macho \<Rightarrow> symtab_command \<Rightarrow> (nat \<Rightarrow> symbol_entry) \<Rightarrow> u64 \<Rightarrow> nat \<Rightarrow>
   (addr \<times> nat \<times> u64) option \<Rightarrow> bool" where
  "best_inv mem m symtab ents a n best =
     (case best of
        None \<Rightarrow> \<forall>j<n. \<not> candidate ents a j
      | Some (nl, b, vb) \<Rightarrow>
          b < n \<and> candidate ents a b \<and> vb = entry_value (ents b) \<and>
          macho_get_nlist mem m symtab b = Some nl \<and>
          (\<forall>j<n. candidate ents a j \<longrightarrow> entry_value (ents j) \<le> vb) \<and>
          (\<forall>j<b. candidate ents a j \<longrightarrow> entry_value (ents j) < vb))"

text \<open>
  The entries that \<^verbatim>\<open>macho_for_each_symbol\<close> passes to the callback: those that are not
  debug (STAB) entries, are section-relative, and whose string index names a string of the
  blob (it is at least 4 and less than the length of the blob).
\<close>

definition visible_symbol :: "symtab_command \<Rightarrow> symbol_entry \<Rightarrow> bool" where
  "visible_symbol symtab e =
     (entry_type e AND N_STAB = 0 \<and> entry_type e AND N_TYPE = N_SECT \<and>
      4 \<le> entry_strx e \<and> entry_strx e < strsize symtab)"

text \<open>The name and the address passed for each of them, from entry \<open>i\<close> on.\<close>

definition callback_args ::
  "macho \<Rightarrow> symtab_command \<Rightarrow> (nat \<Rightarrow> symbol_entry) \<Rightarrow> nat \<Rightarrow> (addr option \<times> u64) list" where
  "callback_args m symtab ents i =
     map (\<lambda>j. (macho_symtab_string m symtab (entry_strx (ents j)), entry_value (ents j)))
       (filter (\<lambda>j. visible_symbol symtab (ents j)) [i..<unat (nsyms symtab)])"

text \<open>The callback run on a list of arguments, until it asks to stop.\<close>

fun run_callbacks ::
  "('c \<Rightarrow> addr option \<Rightarrow> u64 \<Rightarrow> bool \<times> 'c) \<Rightarrow> (addr option \<times> u64) list \<Rightarrow> 'c \<Rightarrow> 'c" where
  "run_callbacks callback [] ctx = ctx"
| "run_callbacks callback ((name, address) # rest) ctx =
     (case callback ctx name address of
        (stop, ctx') \<Rightarrow> if stop then ctx' else run_callbacks callback rest ctx')"

text \<open>The pointer lies in the string blob, at index 4 or later.\<close>

definition in_blob :: "macho \<Rightarrow> symtab_command \<Rightarrow> addr \<Rightarrow> bool" where
  "in_blob m symtab p =
     (mh m + unat (stroff symtab) + 4 \<le> p \<and>
      p < mh m + unat (stroff symtab) + unat (strsize symtab))"

text \<open>
  The segments of the image, in the order of \<^verbatim>\<open>macho_next_segment\<close>: the one it returns
  from \<^verbatim>\<open>NULL\<close>, and the one it returns from a segment of the image.
\<close>

inductive image_segment :: "memory \<Rightarrow> macho \<Rightarrow> addr \<Rightarrow> bool" for mem m where
  first_segment: "macho_next_segment mem m None = Some (Some p) \<Longrightarrow> image_segment mem m p"
| later_segment: "image_segment mem m q \<Longrightarrow> macho_next_segment mem m (Some q) = Some (Some p) \<Longrightarrow>
         image_segment mem m p"

text \<open>
  The address comes from a match in the file bytes of segment \<open>p\<close>: it is the segment's
  \<open>vmaddr\<close> plus the offset of the first occurrence of the pattern in the \<open>filesize\<close>
  bytes at \<open>fileoff\<close>.
\<close>

definition match_in_segment :: "memory \<Rightarrow> macho \<Rightarrow> byte list \<Rightarrow> addr \<Rightarrow> u64 \<Rightarrow> bool" where
  "match_in_segment mem m pat p a =
     (case segment_fileoff mem m p of None \<Rightarrow> False | Some fileoff \<Rightarrow>
      case segment_filesize mem m p of None \<Rightarrow> False | Some filesize \<Rightarrow>
      case segment_vmaddr mem m p of None \<Rightarrow> False | Some vmaddr \<Rightarrow>
      case rd_bytes mem (mh m + unat fileoff) (unat filesize) of None \<Rightarrow> False | Some hay \<Rightarrow>
      case first_occurrence pat hay of None \<Rightarrow> False | Some k \<Rightarrow>
        pat \<noteq> [] \<and> a = vmaddr + of_nat k)"

text \<open>
  The address lies inside segment \<open>q\<close>, by the test of
  \<^verbatim>\<open>macho_segment_containing_address\<close>; and segment \<open>q\<close> may be executed.
\<close>

definition in_segment :: "memory \<Rightarrow> macho \<Rightarrow> addr \<Rightarrow> u64 \<Rightarrow> bool" where
  "in_segment mem m q a =
     (case segment_vmaddr mem m q of None \<Rightarrow> False | Some vmaddr \<Rightarrow>
      case segment_vmsize mem m q of None \<Rightarrow> False | Some vmsize \<Rightarrow>
        vmaddr \<le> a \<and> a < vmaddr + vmsize)"

definition segment_executable :: "memory \<Rightarrow> macho \<Rightarrow> addr \<Rightarrow> bool" where
  "segment_executable mem m q =
     (case segment_initprot mem m q of None \<Rightarrow> False | Some prot \<Rightarrow>
        prot AND VM_PROT_EXECUTE = VM_PROT_EXECUTE)"

text \<open>
  The layout of a well-formed image: no address lies inside two segments, and the file
  bytes of each segment fit into its address range, which does not wrap around.
\<close>

definition segments_disjoint :: "memory \<Rightarrow> macho \<Rightarrow> bool" where
  "segments_disjoint mem m =
     (\<forall>p q a. image_segment mem m p \<and> image_segment mem m q \<and>
        in_segment mem m p a \<and> in_segment mem m q a \<longrightarrow> p = q)"

definition fits_address_range :: "memory \<Rightarrow> macho \<Rightarrow> addr \<Rightarrow> bool" where
  "fits_address_range mem m p =
     (case segment_filesize mem m p of None \<Rightarrow> False | Some filesize \<Rightarrow>
      case segment_vmaddr mem m p of None \<Rightarrow> False | Some vmaddr \<Rightarrow>
      case segment_vmsize mem m p of None \<Rightarrow> False | Some vmsize \<Rightarrow>
        unat filesize \<le> unat vmsize \<and> unat vmaddr + unat vmsize < 2 ^ 64)"

definition file_within_vm :: "memory \<Rightarrow> macho \<Rightarrow> bool" where
  "file_within_vm mem m = (\<forall>p. image_segment mem m p \<longrightarrow> fits_address_range mem m p)"

text \<open>The protection \<open>prot\<close> includes every bit of \<open>minprot\<close>.\<close>

definition includes_prot :: "u32 \<Rightarrow> u32 \<Rightarrow> bool" where
  "includes_prot prot minprot = (prot AND minprot = minprot)"

section \<open>Concrete images\<close>

text \<open>All concrete images are loaded at address 4096.\<close>

definition image_macho :: "u64 \<Rightarrow> macho" where
  "image_macho sz = \<lparr> mh = 4096, msize = sz \<rparr>"

text \<open>
  A 32-bit image of 198 bytes: the header; one segment command \<^verbatim>\<open>__TEXT\<close> (\<open>vmaddr\<close>
  \<open>0x1000\<close>, \<open>vmsize\<close> \<open>0x2000\<close>, \<open>fileoff\<close> 0, \<open>filesize\<close> 40, \<open>initprot\<close> read and
  execute) with one section at \<open>0x1000\<close> whose size has the low bytes \<open>s0\<close> and \<open>s1\<close>;
  at offset 152 three symbol entries (string index 4, section-relative, section 1, address
  \<open>0x1000\<close>; string index 7, section-relative and external, section 1, address \<open>0x1050\<close>;
  string index 2, section-relative, section 1, address \<open>0x1050\<close>); at offset 188 the
  string blob of 10 bytes with the names \<^verbatim>\<open>_a\<close> at index 4 and \<^verbatim>\<open>_b\<close> at index 7.
\<close>

definition image_scenario :: "byte \<Rightarrow> byte \<Rightarrow> byte list" where
  "image_scenario s0 s1 =
     [
      0xce, 0xfa, 0xed, 0xfe, 7, 0, 0, 0, 3, 0, 0, 0, 2, 0, 0, 0,
      1, 0, 0, 0, 0x7c, 0, 0, 0, 0, 0, 0, 0, 1, 0, 0, 0,
      0x7c, 0, 0, 0, 0x5f, 0x5f, 0x54, 0x45, 0x58, 0x54, 0, 0, 0, 0, 0, 0,
      0, 0, 0, 0, 0, 0x10, 0, 0, 0, 0x20, 0, 0, 0, 0, 0, 0,
      0x28, 0, 0, 0, 7, 0, 0, 0, 5, 0, 0, 0, 1, 0, 0, 0,
      0, 0, 0, 0, 0x5f, 0x5f, 0x74, 0x65, 0x78, 0x74, 0, 0, 0, 0, 0, 0,
      0, 0, 0, 0, 0x5f, 0x5f, 0x54, 0x45, 0x58, 0x54, 0, 0, 0, 0, 0, 0,
      0, 0, 0, 0, 0, 0x10, 0, 0, s0, s1, 0, 0, 0, 0, 0, 0,
      0, 0, 0, 0, 0, 0, 0, 0, 0, 0, 0, 0, 0, 0, 0, 0,
      0, 0, 0, 0, 0, 0, 0, 0, 4, 0, 0, 0, 0x0e, 1, 0, 0,
      0, 0x10, 0, 0, 7, 0, 0, 0, 0x0f, 1, 0, 0, 0x50, 0x10, 0, 0,
      2, 0, 0, 0, 0x0e, 1, 0, 0, 0x50, 0x10, 0, 0, 0, 0, 0, 0,
      0x5f, 0x61, 0, 0x5f, 0x62, 0]"

definition symtab_scenario :: symtab_command where
  "symtab_scenario = \<lparr> symoff = 152, nsyms = 3, stroff = 188, strsize = 10 \<rparr>"

definition entries_scenario :: "nat \<Rightarrow> symbol_entry" where
  "entries_scenario j =
     (if j = 0 then \<lparr> entry_strx = 4, entry_type = 0x0e, entry_sect = 1, entry_value = 0x1000 \<rparr>
      else if j = 1 then \<lparr> entry_strx = 7, entry_type = 0x0f, entry_sect = 1, entry_value = 0x1050 \<rparr>
      else \<lparr> entry_strx = 2, entry_type = 0x0e, entry_sect = 1, entry_value = 0x1050 \<rparr>)"

definition commands_scenario :: "byte \<Rightarrow> byte \<Rightarrow> command_entry list" where
  "commands_scenario s0 s1 =
     [Segment_entry 124 0x1000 0x2000
        [\<lparr> sect_start = 0x1000, sect_length = ucast (le32 s0 s1 0 0) \<rparr>]]"

text \<open>
  A 64-bit image of 104 bytes with one segment command whose \<open>vmaddr\<close> is 0 and whose
  \<open>vmsize\<close> is \<open>2 ^ 64 - 1\<close>, without sections.
\<close>

definition image_whole_space :: "byte list" where
  "image_whole_space =
     [
      0xcf, 0xfa, 0xed, 0xfe, 7, 0, 0, 1, 3, 0, 0, 0, 2, 0, 0, 0,
      1, 0, 0, 0, 0x48, 0, 0, 0, 0, 0, 0, 0, 0, 0, 0, 0,
      0x19, 0, 0, 0, 0x48, 0, 0, 0, 0x5f, 0x5f, 0x50, 0x41, 0x47, 0x45, 0x5a, 0x45,
      0x52, 0x4f, 0, 0, 0, 0, 0, 0, 0, 0, 0, 0, 0, 0, 0, 0,
      0xff, 0xff, 0xff, 0xff, 0xff, 0xff, 0xff, 0xff, 0, 0, 0, 0, 0, 0, 0, 0,
      0, 0, 0, 0, 0, 0, 0, 0, 0, 0, 0, 0, 0, 0, 0, 0,
      0, 0, 0, 0, 0, 0, 0, 0]"

definition commands_whole_space :: "command_entry list" where
  "commands_whole_space = [Segment_entry 72 0 (- 1) []]"

text \<open>
  A 32-bit image of 47 bytes without load commands: at offset 28 one symbol entry (string
  index 4, section-relative, section index \<^verbatim>\<open>NO_SECT\<close>, address \<open>0x1000\<close>), at offset 40 the
  string blob of 7 bytes with the name \<^verbatim>\<open>_a\<close> at index 4.
\<close>

definition image_one_symbol :: "byte list" where
  "image_one_symbol =
     [
      0xce, 0xfa, 0xed, 0xfe, 7, 0, 0, 0, 3, 0, 0, 0, 2, 0, 0, 0,
      0, 0, 0, 0, 0, 0, 0, 0, 0, 0, 0, 0, 4, 0, 0, 0,
      0x0e, 0, 0, 0, 0, 0x10, 0, 0, 0, 0, 0, 0, 0x5f, 0x61, 0]"

definition symtab_one_symbol :: symtab_command where
  "symtab_one_symbol = \<lparr> symoff = 28, nsyms = 1, stroff = 40, strsize = 7 \<rparr>"

definition entries_one_symbol :: "nat \<Rightarrow> symbol_entry" where
  "entries_one_symbol j =
     \<lparr> entry_strx = 4, entry_type = 0x0e, entry_sect = 0, entry_value = 0x1000 \<rparr>"

text \<open>
  A 32-bit image of 47 bytes without load commands: at offset 28 one symbol entry (string
  index 5, section-relative, section 1, address \<open>0x1000\<close>), at offset 40 the string blob
  of 7 bytes, which holds the name \<^verbatim>\<open>_a\<close> at index 4 and with it the name \<^verbatim>\<open>a\<close> at index 5.
\<close>

definition image_inner_name :: "byte list" where
  "image_inner_name =
     [
      0xce, 0xfa, 0xed, 0xfe, 7, 0, 0, 0, 3, 0, 0, 0, 2, 0, 0, 0,
      0, 0, 0, 0, 0, 0, 0, 0, 0, 0, 0, 0, 5, 0, 0, 0,
      0x0e, 1, 0, 0, 0, 0x10, 0, 0, 0, 0, 0, 0, 0x5f, 0x61, 0]"

definition symtab_inner_name :: symtab_command where
  "symtab_inner_name = \<lparr> symoff = 28, nsyms = 1, stroff = 40, strsize = 7 \<rparr>"

definition entries_inner_name :: "nat \<Rightarrow> symbol_entry" where
  "entries_inner_name j =
     \<lparr> entry_strx = 5, entry_type = 0x0e, entry_sect = 1, entry_value = 0x1000 \<rparr>"

text \<open>
  A 32-bit image of 140 bytes with two segment commands without sections, both with
  \<open>vmaddr\<close> \<open>0x1000\<close>, \<open>vmsize\<close> \<open>0x1000\<close>, \<open>fileoff\<close> 0 and \<open>filesize\<close> 16: first
  \<^verbatim>\<open>__DATA\<close> with \<open>initprot\<close> read and write, then \<^verbatim>\<open>__TEXT\<close> with \<open>initprot\<close> read and
  execute.
\<close>

definition image_overlap :: "byte list" where
  "image_overlap =
     [
      0xce, 0xfa, 0xed, 0xfe, 7, 0, 0, 0, 3, 0, 0, 0, 2, 0, 0, 0,
      2, 0, 0, 0, 0x70, 0, 0, 0, 0, 0, 0, 0, 1, 0, 0, 0,
      0x38, 0, 0, 0, 0x5f, 0x5f, 0x44, 0x41, 0x54, 0x41, 0, 0, 0, 0, 0, 0,
      0, 0, 0, 0, 0, 0x10, 0, 0, 0, 0x10, 0, 0, 0, 0, 0, 0,
      0x10, 0, 0, 0, 7, 0, 0, 0, 3, 0, 0, 0, 0, 0, 0, 0,
      0, 0, 0, 0, 1, 0, 0, 0, 0x38, 0, 0, 0, 0x5f, 0x5f, 0x54, 0x45,
      0x58, 0x54, 0, 0, 0, 0, 0, 0, 0, 0, 0, 0, 0, 0x10, 0, 0,
      0, 0x10, 0, 0, 0, 0, 0, 0, 0x10, 0, 0, 0, 7, 0, 0, 0,
      5, 0, 0, 0, 0, 0, 0, 0, 0, 0, 0, 0]"

text \<open>
  A 32-bit image of 59 bytes without load commands: at offset 28 two symbol entries, both
  with string index 4, section-relative and with the address \<open>0x1000\<close>, the first with the
  section index \<^verbatim>\<open>NO_SECT\<close> and the second with the section index 1; at offset 52 the string
  blob of 7 bytes with the name \<^verbatim>\<open>_a\<close> at index 4.
\<close>

definition image_tie :: "byte list" where
  "image_tie =
     [
      0xce, 0xfa, 0xed, 0xfe, 7, 0, 0, 0, 3, 0, 0, 0, 2, 0, 0, 0,
      0, 0, 0, 0, 0, 0, 0, 0, 0, 0, 0, 0, 4, 0, 0, 0,
      0x0e, 0, 0, 0, 0, 0x10, 0, 0, 4, 0, 0, 0, 0x0e, 1, 0, 0,
      0, 0x10, 0, 0, 0, 0, 0, 0, 0x5f, 0x61, 0]"

definition symtab_tie :: symtab_command where
  "symtab_tie = \<lparr> symoff = 28, nsyms = 2, stroff = 52, strsize = 7 \<rparr>"

definition entries_tie :: "nat \<Rightarrow> symbol_entry" where
  "entries_tie j =
     \<lparr> entry_strx = 4, entry_type = 0x0e, entry_sect = (if j = 0 then 0 else 1),
       entry_value = 0x1000 \<rparr>"

section \<open>Reading inside a readable range\<close>

lemma readable_mem: "readable mem a n \<Longrightarrow> i < n \<Longrightarrow> \<exists>b. mem (a + i) = Some b"
  by (auto simp: readable_def)

lemma readable_rd32:
  assumes "readable mem a n" and "i + 4 \<le> n"
  shows "\<exists>v. rd32 mem (a + i) = Some v"
proof -
  obtain b0 where b0: "mem (a + i) = Some b0"
    using readable_mem [OF assms(1), of i] assms(2) by auto
  obtain b1 where b1: "mem (a + i + 1) = Some b1"
    using readable_mem [OF assms(1), of "i + 1"] assms(2) by (auto simp: add.assoc)
  obtain b2 where b2: "mem (a + i + 2) = Some b2"
    using readable_mem [OF assms(1), of "i + 2"] assms(2) by (auto simp: add.assoc)
  obtain b3 where b3: "mem (a + i + 3) = Some b3"
    using readable_mem [OF assms(1), of "i + 3"] assms(2) by (auto simp: add.assoc)
  show ?thesis using b0 b1 b2 b3 by (simp add: rd32_def)
qed

lemma readable_rd32_0:
  assumes "readable mem a n" and "4 \<le> n"
  shows "\<exists>v. rd32 mem a = Some v"
  using readable_rd32 [OF assms(1), of 0] assms(2) by simp

section \<open>Properties of validation\<close>

text \<open>
  C1. For a buffer of \<open>sz\<close> readable bytes at \<open>p\<close>, \<open>macho_validate\<close> returns, and it
  returns \<open>MACHO_SUCCESS\<close> if and only if the magic at offset 0 is one of the two recognized
  magics, \<open>sz\<close> is at least the header size of the detected width and the header's
  \<open>sizeofcmds\<close> is at most \<open>sz\<close>; when any of the three conditions fails it returns
  \<open>MACHO_ERROR\<close>.
\<close>

theorem macho_validate_iff:
  assumes "readable mem p (unat sz)"
  shows "macho_validate mem p sz =
           Some (if validate_conditions mem p sz then MACHO_SUCCESS else MACHO_ERROR)"
proof (cases "sz < 28")
  case True
  then have "\<not> header_size_of_magic magic \<le> sz" for magic
    by (auto simp: header_size_of_magic_def word_less_nat_alt word_le_nat_alt)
  then have "\<not> validate_conditions mem p sz"
    by (auto simp: validate_conditions_def split: option.splits)
  with True show ?thesis by (simp add: macho_validate_def)
next
  case False
  then have n: "28 \<le> unat sz"
    by (simp add: word_less_nat_alt)
  obtain magic where m: "rd32 mem p = Some magic"
    using readable_rd32_0 [OF assms] n by auto
  obtain sc where s: "rd32 mem (p + 20) = Some sc"
    using readable_rd32 [OF assms, of 20] n by auto
  have neq: "MH_MAGIC \<noteq> MH_MAGIC_64"
    by (simp add: MH_MAGIC_def MH_MAGIC_64_def)
  from False have ge: "28 \<le> sz"
    by simp
  show ?thesis
    using False neq ge
    by (auto simp: macho_validate_def macho_validate_32_def macho_validate_64_def
        validate_conditions_def recognized_magic_def header_size_of_magic_def m s not_less)
qed

lemma readable_load_at: "n \<le> length bs \<Longrightarrow> readable (load_at base bs) base n"
  by (simp add: readable_def load_at_def)

section \<open>Properties of the iteration over load commands\<close>

lemma reached_less: "reached mem start e p \<Longrightarrow> p < e"
  by (induction rule: reached.induct) auto

lemma next_load_command_None:
  assumes "macho_header_size mem m = Some hs" and "header_sizeofcmds mem m = Some n"
  shows "macho_next_load_command mem m None =
           Some (if n = 0 then None else Some (mh m + hs))"
  using assms by (auto simp: macho_next_load_command_def Let_def unat_eq_0)

lemma next_load_command_Some:
  assumes "macho_header_size mem m = Some hs" and "header_sizeofcmds mem m = Some n"
    and "lc_cmdsize mem p = Some c"
  shows "macho_next_load_command mem m (Some p) =
           Some (if mh m + hs + unat n \<le> p + unat c then None else Some (p + unat c))"
  using assms by (simp add: macho_next_load_command_def Let_def)

lemma load_commands_from_reached:
  assumes hs: "macho_header_size mem m = Some hs" and n: "header_sizeofcmds mem m = Some n"
    and nz: "\<And>q. reached mem (mh m + hs) (mh m + hs + unat n) q \<Longrightarrow>
               \<exists>c. lc_cmdsize mem q = Some c \<and> c \<noteq> 0"
  shows "reached mem (mh m + hs) (mh m + hs + unat n) p \<Longrightarrow>
         \<exists>cs s. load_commands_from mem m (Some p) = Some cs \<and>
                cmdsize_sum mem (butlast (p # cs)) = Some s \<and> p + s < mh m + hs + unat n"
proof (induction "mh m + hs + unat n - p" arbitrary: p rule: less_induct)
  case less
  let ?e = "mh m + hs + unat n"
  from less.prems have pe: "p < ?e" by (rule reached_less)
  from nz [OF less.prems] obtain c where c: "lc_cmdsize mem p = Some c" and c0: "c \<noteq> 0"
    by blast
  have cpos: "0 < unat c" using c0 by (simp add: unat_gt_0)
  show ?case
  proof (cases "?e \<le> p + unat c")
    case True
    then have "load_commands_from mem m (Some p) = Some []"
      by (subst load_commands_from.simps) (simp add: next_load_command_Some [OF hs n c])
    with pe show ?thesis by simp
  next
    case False
    then have r: "reached mem (mh m + hs) ?e (p + unat c)"
      using reached.step [OF less.prems c] by simp
    have "?e - (p + unat c) < ?e - p" using cpos pe by simp
    from less.hyps [OF this r] obtain cs s where
      cs: "load_commands_from mem m (Some (p + unat c)) = Some cs" and
      s: "cmdsize_sum mem (butlast ((p + unat c) # cs)) = Some s" and
      b: "p + unat c + s < ?e" by blast
    have "load_commands_from mem m (Some p) = Some ((p + unat c) # cs)"
      using False
      by (subst load_commands_from.simps) (simp add: next_load_command_Some [OF hs n c] cs)
    moreover have "cmdsize_sum mem (butlast (p # (p + unat c) # cs)) = Some (unat c + s)"
      using s c by simp
    ultimately show ?thesis using b by (simp add: add.assoc)
  qed
qed

lemma validate_success_header:
  assumes "macho_validate mem p sz = Some MACHO_SUCCESS"
  shows "\<exists>magic n. rd32 mem p = Some magic \<and> rd32 mem (p + 20) = Some n"
  using assms
  by (auto simp: macho_validate_def macho_validate_32_def macho_validate_64_def
      split: if_splits Option.bind_splits)

lemma header_reads:
  assumes "rd32 mem (mh m) = Some magic" and "rd32 mem (mh m + 20) = Some n"
  shows "\<exists>hs. macho_header_size mem m = Some hs" and "header_sizeofcmds mem m = Some n"
  using assms
  by (simp_all add: macho_header_size_def MACHO_STRUCT_SIZE_def macho_is_64_def
      header_sizeofcmds_def field_u32_def)

text \<open>
  C2, as amended. For every validated image in which each command that the iteration
  reaches has a readable, non-zero \<open>cmdsize\<close>: the calls of
  \<^verbatim>\<open>macho_next_load_command\<close> from \<^verbatim>\<open>NULL\<close> yield a finite sequence;
  it is empty if and only if \<open>sizeofcmds\<close> is 0; and the declared lengths of all its
  commands but the last sum to less than \<open>sizeofcmds\<close>. The length that the last command
  declares is not compared with the end of the table.
\<close>

theorem load_commands_bounded:
  assumes v: "macho_validate mem (mh m) (msize m) = Some MACHO_SUCCESS"
    and nz: "\<forall>hs n q. macho_header_size mem m = Some hs \<longrightarrow> header_sizeofcmds mem m = Some n \<longrightarrow>
               reached mem (mh m + hs) (mh m + hs + unat n) q \<longrightarrow>
               (\<exists>c. lc_cmdsize mem q = Some c \<and> c \<noteq> 0)"
  shows "\<exists>cs n s. load_commands mem m = Some cs \<and> header_sizeofcmds mem m = Some n \<and>
           (cs = [] \<longleftrightarrow> n = 0) \<and>
           cmdsize_sum mem (butlast cs) = Some s \<and> (cs \<noteq> [] \<longrightarrow> s < unat n)"
proof -
  from validate_success_header [OF v] obtain magic n where
    mg: "rd32 mem (mh m) = Some magic" and n0: "rd32 mem (mh m + 20) = Some n" by blast
  from header_reads [OF mg n0] obtain hs where
    hs: "macho_header_size mem m = Some hs" and n: "header_sizeofcmds mem m = Some n" by blast
  show ?thesis
  proof (cases "n = 0")
    case True
    then have "load_commands mem m = Some []"
      unfolding load_commands_def
      by (subst load_commands_from.simps) (simp add: next_load_command_None [OF hs n])
    with True n show ?thesis by simp
  next
    case False
    then have "0 < unat n" by (simp add: unat_gt_0)
    then have r: "reached mem (mh m + hs) (mh m + hs + unat n) (mh m + hs)"
      by (intro reached.first) simp
    have nz': "\<And>q. reached mem (mh m + hs) (mh m + hs + unat n) q \<Longrightarrow>
               \<exists>c. lc_cmdsize mem q = Some c \<and> c \<noteq> 0"
      using nz hs n by blast
    from load_commands_from_reached [OF hs n nz' r] obtain cs s where
      cs: "load_commands_from mem m (Some (mh m + hs)) = Some cs" and
      s: "cmdsize_sum mem (butlast ((mh m + hs) # cs)) = Some s" and
      b: "mh m + hs + s < mh m + hs + unat n" by blast
    have "load_commands mem m = Some ((mh m + hs) # cs)"
      unfolding load_commands_def using False
      by (subst load_commands_from.simps) (simp add: next_load_command_None [OF hs n] cs)
    with s b n False show ?thesis by simp
  qed
qed

section \<open>Lookups in a described command table\<close>

text \<open>
  \<open>p\<close> is the address that \<^verbatim>\<open>macho_next_load_command\<close> computes from \<open>lc\<close> before it
  compares it with the end of the table.
\<close>

lemma header_size_of_is_64:
  "macho_is_64 mem m = Some is64 \<Longrightarrow> macho_header_size mem m = Some (if is64 then 32 else 28)"
  by (simp add: macho_header_size_def MACHO_STRUCT_SIZE_def)

lemma next_load_command_described:
  assumes w: "macho_is_64 mem m = Some is64" and n: "header_sizeofcmds mem m = Some n"
    and e: "e = mh m + (if is64 then 32 else 28) + unat n"
    and lc: "case lc of None \<Rightarrow> p = mh m + (if is64 then 32 else 28)
             | Some q \<Rightarrow> \<exists>sz. lc_cmdsize mem q = Some sz \<and> p = q + unat sz"
    and cs: "commands_at mem m is64 e p cs"
  shows "macho_next_load_command mem m lc = Some (if cs = [] then None else Some p)"
proof (cases cs)
  case Nil
  with cs have "e \<le> p" by simp
  with lc e show ?thesis
    unfolding Nil
    by (cases lc)
      (auto simp: macho_next_load_command_def header_size_of_is_64 [OF w] n Let_def)
next
  case (Cons c cs')
  with cs have "p < e" by simp
  with lc e show ?thesis
    unfolding Cons
    by (cases lc)
      (auto simp: macho_next_load_command_def header_size_of_is_64 [OF w] n Let_def)
qed

lemma command_at_reads:
  "command_at mem m is64 p c \<Longrightarrow>
   lc_cmdsize mem p = Some (entry_cmdsize c) \<and>
   (\<exists>cmd. lc_cmd mem p = Some cmd \<and>
      (cmd = segment_cmd is64) = (case c of Segment_entry sz va vs sects \<Rightarrow> True | _ \<Rightarrow> False))"
  by (cases c) auto

lemma next_segment_described:
  assumes w: "macho_is_64 mem m = Some is64" and n: "header_sizeofcmds mem m = Some n"
    and e: "e = mh m + (if is64 then 32 else 28) + unat n"
  shows "(case lc of None \<Rightarrow> p = mh m + (if is64 then 32 else 28)
             | Some q \<Rightarrow> \<exists>sz. lc_cmdsize mem q = Some sz \<and> p = q + unat sz) \<Longrightarrow>
         commands_at mem m is64 e p cs \<Longrightarrow>
         macho_next_segment mem m lc = Some (first_segment_at p cs)"
proof (induction cs arbitrary: lc p)
  case Nil
  from next_load_command_described [OF w n e Nil.prems]
  have "macho_next_load_command mem m lc = Some None" by simp
  then have "macho_find_load_command mem m lc (segment_cmd is64) = Some None"
    by (subst macho_find_load_command.simps) simp
  then show ?case by (simp add: macho_next_segment_def w segment_cmd_def)
next
  case (Cons c cs)
  from next_load_command_described [OF w n e Cons.prems]
  have nx: "macho_next_load_command mem m lc = Some (Some p)" by simp
  from Cons.prems(2) have c: "command_at mem m is64 p c"
    and rest: "commands_at mem m is64 e (p + unat (entry_cmdsize c)) cs" by simp_all
  show ?case
  proof (cases c)
    case (Segment_entry sz va vs sects)
    with c have "lc_cmd mem p = Some (segment_cmd is64)" by simp
    with nx have "macho_find_load_command mem m lc (segment_cmd is64) = Some (Some p)"
      by (subst macho_find_load_command.simps) simp
    with Segment_entry show ?thesis by (simp add: macho_next_segment_def w segment_cmd_def)
  next
    case (Other_entry cmd sz)
    with c have r: "lc_cmd mem p = Some cmd" "cmd \<noteq> segment_cmd is64"
      "lc_cmdsize mem p = Some sz" by simp_all
    with nx have "macho_find_load_command mem m lc (segment_cmd is64) =
        macho_find_load_command mem m (Some p) (segment_cmd is64)"
      by (subst macho_find_load_command.simps) simp
    then have "macho_next_segment mem m lc = macho_next_segment mem m (Some p)"
      by (cases is64) (simp_all add: macho_next_segment_def w segment_cmd_def)
    moreover have "macho_next_segment mem m (Some p) = Some (first_segment_at (p + unat sz) cs)"
      using rest r Other_entry by (intro Cons.IH) simp_all
    ultimately show ?thesis using Other_entry by simp
  qed
qed

text \<open>
  \<^verbatim>\<open>macho_segment_containing_address\<close> returns, and it returns the first segment of the
  table that contains the address.
\<close>

lemma segment_containing_address_loop_described:
  assumes w: "macho_is_64 mem m = Some is64" and n: "header_sizeofcmds mem m = Some n"
    and e: "e = mh m + (if is64 then 32 else 28) + unat n"
  shows "(case lc of None \<Rightarrow> p = mh m + (if is64 then 32 else 28)
             | Some q \<Rightarrow> \<exists>sz. lc_cmdsize mem q = Some sz \<and> p = q + unat sz) \<Longrightarrow>
         commands_at mem m is64 e p cs \<Longrightarrow>
         \<exists>r. segment_containing_address_loop mem m lc a = Some r \<and>
             (case containing_segment cs a of
                None \<Rightarrow> r = None
              | Some (va, vs, sects) \<Rightarrow>
                  \<exists>q sz. r = Some q \<and> command_at mem m is64 q (Segment_entry sz va vs sects))"
proof (induction cs arbitrary: lc p)
  case Nil
  from next_segment_described [OF w n e Nil.prems]
  have "macho_next_segment mem m lc = Some None" by simp
  then have "segment_containing_address_loop mem m lc a = Some None"
    by (subst segment_containing_address_loop.simps) simp
  then show ?case by simp
next
  case (Cons c cs)
  from Cons.prems(2) have c: "command_at mem m is64 p c"
    and rest: "commands_at mem m is64 e (p + unat (entry_cmdsize c)) cs" by simp_all
  from command_at_reads [OF c] have sz: "lc_cmdsize mem p = Some (entry_cmdsize c)" by simp
  have ih: "\<exists>r. segment_containing_address_loop mem m (Some p) a = Some r \<and>
             (case containing_segment cs a of
                None \<Rightarrow> r = None
              | Some (va, vs, sects) \<Rightarrow>
                  \<exists>q sz. r = Some q \<and> command_at mem m is64 q (Segment_entry sz va vs sects))"
    using rest sz by (intro Cons.IH) simp_all
  from next_segment_described [OF w n e Cons.prems]
  have nx: "macho_next_segment mem m lc = Some (first_segment_at p (c # cs))" .
  show ?case
  proof (cases c)
    case (Other_entry cmd s)
    from next_segment_described [OF w n e _ rest, of "Some p"] sz
    have "macho_next_segment mem m (Some p) = Some (first_segment_at (p + unat s) cs)"
      using Other_entry by simp
    with nx Other_entry have "macho_next_segment mem m lc = macho_next_segment mem m (Some p)"
      by simp
    then have "segment_containing_address_loop mem m lc a =
        segment_containing_address_loop mem m (Some p) a"
      by (rule_tac trans [OF segment_containing_address_loop.simps])
        (simp add: segment_containing_address_loop.simps [of mem m "Some p" a, symmetric])
    with ih Other_entry show ?thesis by simp
  next
    case (Segment_entry s va vs sects)
    with nx have nx': "macho_next_segment mem m lc = Some (Some p)" by simp
    from c Segment_entry have f: "segment_vmaddr mem m p = Some va"
      "segment_vmsize mem m p = Some vs" by simp_all
    have step: "segment_containing_address_loop mem m lc a =
        (if address_in va vs a then Some (Some p)
         else segment_containing_address_loop mem m (Some p) a)"
      by (subst segment_containing_address_loop.simps) (simp add: nx' f address_in_def)
    show ?thesis
    proof (cases "address_in va vs a")
      case True
      with step have "segment_containing_address_loop mem m lc a = Some (Some p)"
        by simp
      with True c Segment_entry show ?thesis by auto
    next
      case False
      with step have "segment_containing_address_loop mem m lc a =
          segment_containing_address_loop mem m (Some p) a"
        by simp
      with ih False Segment_entry show ?thesis by simp
    qed
  qed
qed

lemma segment_containing_address_described:
  assumes "image_commands mem m cs"
  shows "\<exists>r is64. macho_is_64 mem m = Some is64 \<and>
           macho_segment_containing_address mem m a = Some r \<and>
           (case containing_segment cs a of
              None \<Rightarrow> r = None
            | Some (va, vs, sects) \<Rightarrow>
                \<exists>q sz. r = Some q \<and> command_at mem m is64 q (Segment_entry sz va vs sects))"
proof -
  from assms obtain is64 n where w: "macho_is_64 mem m = Some is64"
    and n: "header_sizeofcmds mem m = Some n"
    and cs: "commands_at mem m is64 (mh m + (if is64 then 32 else 28) + unat n)
               (mh m + (if is64 then 32 else 28)) cs"
    by (auto simp: image_commands_def split: option.splits)
  from segment_containing_address_loop_described [OF w n refl _ cs, of None a] w
  show ?thesis by (simp add: macho_segment_containing_address_def)
qed

text \<open>
  \<^verbatim>\<open>macho_section_containing_address\<close> returns, and it returns the first section of the
  segment that contains the address.
\<close>

lemma section_containing_address_loop_described:
  "sections_at mem m step q sects \<Longrightarrow> i + length sects = unat nsects \<Longrightarrow>
   \<exists>r. section_containing_address_loop mem m nsects step a i q = Some r \<and>
       (case containing_section sects a of
          None \<Rightarrow> r = None
        | Some s \<Rightarrow> \<exists>sp. r = Some sp \<and> section_addr mem m sp = Some (sect_start s) \<and>
                     section_size mem m sp = Some (sect_length s))"
proof (induction sects arbitrary: i q)
  case Nil
  then have "\<not> i < unat nsects" by simp
  then have "section_containing_address_loop mem m nsects step a i q = Some None"
    by (subst section_containing_address_loop.simps) simp
  then show ?case by (simp add: containing_section_def)
next
  case (Cons s sects)
  from Cons.prems have i: "i < unat nsects" and f: "section_addr mem m q = Some (sect_start s)"
    "section_size mem m q = Some (sect_length s)"
    and rest: "sections_at mem m step (q + step) sects" "(i + 1) + length sects = unat nsects"
    by simp_all
  have step: "section_containing_address_loop mem m nsects step a i q =
      (if address_in (sect_start s) (sect_length s) a then Some (Some q)
       else section_containing_address_loop mem m nsects step a (i + 1) (q + step))"
    by (subst section_containing_address_loop.simps) (simp add: i f address_in_def)
  show ?case
  proof (cases "address_in (sect_start s) (sect_length s) a")
    case True
    with step f show ?thesis by (simp add: containing_section_def)
  next
    case False
    with step Cons.IH [OF rest] show ?thesis
      by (simp add: containing_section_def)
  qed
qed

lemma section_containing_address_described:
  assumes w: "macho_is_64 mem m = Some is64"
    and c: "command_at mem m is64 q (Segment_entry sz va vs sects)"
  shows "\<exists>r. macho_section_containing_address mem m q a = Some r \<and>
       (case containing_section sects a of
          None \<Rightarrow> r = None
        | Some s \<Rightarrow> \<exists>sp. r = Some sp \<and> section_addr mem m sp = Some (sect_start s) \<and>
                     section_size mem m sp = Some (sect_length s))"
proof -
  from c have l: "length sects < 2 ^ 32"
    and ns: "segment_nsects mem m q = Some (of_nat (length sects))"
    and s: "sections_at mem m (if is64 then 80 else 68) (q + (if is64 then 72 else 56)) sects"
    by simp_all
  from l have "unat (of_nat (length sects) :: u32) = length sects"
    by (simp add: unat_of_nat)
  then have "0 + length sects = unat (of_nat (length sects) :: u32)" by simp
  from section_containing_address_loop_described [OF s this, of a]
  show ?thesis
    by (simp add: macho_section_containing_address_def ns MACHO_STRUCT_SIZE_def w)
qed

section \<open>Properties of the size guess\<close>

lemma less_minus_one_iff: "(x < - 1) = (x \<noteq> (- 1 :: u64))"
  by (rule word_order.not_eq_extremum [symmetric])

lemma minus_one_le_iff: "(- 1 \<le> x) = (x = (- 1 :: u64))"
  by (rule word_order.extremum_unique)

lemma cascade1:
  "(let s0 = (if c then x else - 1) in if s0 = - 1 then 0 else s0) =
     least_bound_sentinel (if c then [x] else [])"
  by (cases c) (simp_all add: least_bound_sentinel_def Let_def)

lemma cascade2:
  "(let s0 = (if c then x else - 1); s2 = (if g < s0 then g else s0)
    in if s2 = - 1 then 0 else s2) =
     least_bound_sentinel ((if c then [x] else []) @ [g])"
  by (cases c) (auto simp: least_bound_sentinel_def min_def less_minus_one_iff Let_def
      minus_one_le_iff)

lemma cascade3:
  "(let s0 = (if c then x else - 1); s1 = (if b < s0 then b else s0);
        s2 = (if g < s1 then g else s1)
    in if s2 = - 1 then 0 else s2) =
     least_bound_sentinel ((if c then [x] else []) @ [b] @ [g])"
  by (cases c) (auto simp: least_bound_sentinel_def min_def less_minus_one_iff Let_def
      minus_one_le_iff)

text \<open>The bounds that \<^verbatim>\<open>guess_symbol_size\<close> takes from the results of its two lookups.\<close>

lemma guess_symbol_size_no_segment:
  assumes "macho_segment_containing_address mem m a = Some None"
  shows "guess_symbol_size mem m a next = Some (least_bound_sentinel (next_symbol_bound a next))"
proof -
  from assms have "guess_symbol_size mem m a next =
      Some (let s0 = (if next \<noteq> - 1 then next - a else - 1) in if s0 = - 1 then 0 else s0)"
    by (simp add: guess_symbol_size_def Let_def)
  then show ?thesis by (simp only: cascade1 next_symbol_bound_def)
qed

lemma guess_symbol_size_segment:
  assumes "macho_segment_containing_address mem m a = Some (Some scp)"
    and "macho_section_containing_address mem m scp a = Some None"
    and "segment_vmaddr mem m scp = Some va" and "segment_vmsize mem m scp = Some vs"
  shows "guess_symbol_size mem m a next =
           Some (least_bound_sentinel (next_symbol_bound a next @ [va + vs - a]))"
proof -
  define g where "g = va + vs - a"
  from assms have "guess_symbol_size mem m a next =
      Some (let s0 = (if next \<noteq> - 1 then next - a else - 1);
                s2 = (if g < s0 then g else s0)
            in if s2 = - 1 then 0 else s2)"
    by (simp only: guess_symbol_size_def Let_def bind.bind_lunit option.case g_def)
  then show ?thesis by (simp only: cascade2 next_symbol_bound_def g_def)
qed

lemma guess_symbol_size_section:
  assumes "macho_segment_containing_address mem m a = Some (Some scp)"
    and "macho_section_containing_address mem m scp a = Some (Some sp)"
    and "section_addr mem m sp = Some sa" and "section_size mem m sp = Some ss"
    and "segment_vmaddr mem m scp = Some va" and "segment_vmsize mem m scp = Some vs"
  shows "guess_symbol_size mem m a next =
           Some (least_bound_sentinel (next_symbol_bound a next @ [sa + ss - a, va + vs - a]))"
proof -
  define g where "g = va + vs - a"
  define b where "b = sa + ss - a"
  from assms have "guess_symbol_size mem m a next =
      Some (let s0 = (if next \<noteq> - 1 then next - a else - 1);
                s1 = (if b < s0 then b else s0);
                s2 = (if g < s1 then g else s1)
            in if s2 = - 1 then 0 else s2)"
    by (simp only: guess_symbol_size_def Let_def bind.bind_lunit option.case g_def b_def)
  then have "guess_symbol_size mem m a next =
      Some (least_bound_sentinel ((if next \<noteq> - 1 then [next - a] else []) @ [b] @ [g]))"
    by (simp only: cascade3)
  then show ?thesis by (simp add: next_symbol_bound_def g_def b_def)
qed

text \<open>
  When \<^verbatim>\<open>guess_symbol_size\<close> returns for an address, it returns for every next-symbol
  address, with the same bounds from the segment and the section.
\<close>

lemma guess_symbol_size_returns:
  assumes "guess_symbol_size mem m a next = Some r"
  shows "\<exists>bs. \<forall>n. guess_symbol_size mem m a n =
           Some (least_bound_sentinel (next_symbol_bound a n @ bs))"
proof -
  from assms obtain sc where sc: "macho_segment_containing_address mem m a = Some sc"
    by (auto simp: guess_symbol_size_def Let_def split: Option.bind_splits)
  show ?thesis
  proof (cases sc)
    case None
    with sc guess_symbol_size_no_segment [of mem m a] show ?thesis
      by (intro exI [of _ "[]"]) simp
  next
    case (Some scp)
    with assms sc obtain sect va vs where
      sect: "macho_section_containing_address mem m scp a = Some sect"
      and va: "segment_vmaddr mem m scp = Some va" and vs: "segment_vmsize mem m scp = Some vs"
      by (auto simp: guess_symbol_size_def Let_def split: Option.bind_splits)
    show ?thesis
    proof (cases sect)
      case None
      with sc Some sect va vs guess_symbol_size_segment [of mem m a scp va vs]
      show ?thesis by (intro exI [of _ "[va + vs - a]"]) simp
    next
      case (Some sp)
      with assms sc \<open>sc = Some scp\<close> sect obtain sa ss where
        sa: "section_addr mem m sp = Some sa" and ss: "section_size mem m sp = Some ss"
        by (auto simp: guess_symbol_size_def Let_def split: Option.bind_splits)
      with sc \<open>sc = Some scp\<close> sect Some va vs
        guess_symbol_size_section [of mem m a scp sp sa ss va vs]
      show ?thesis by (intro exI [of _ "[sa + ss - a, va + vs - a]"]) simp
    qed
  qed
qed

text \<open>
  In an image that holds the command table \<open>cs\<close>, \<^verbatim>\<open>guess_symbol_size\<close> returns, and its
  bounds are those of the first segment of \<open>cs\<close> that contains the address and of the
  first section of that segment that does.
\<close>

lemma guess_symbol_size_described:
  assumes "image_commands mem m cs"
  shows "guess_symbol_size mem m a next =
           Some (least_bound_sentinel (applicable_bounds cs a next))"
proof -
  from segment_containing_address_described [OF assms, of a] obtain r is64 where
    w: "macho_is_64 mem m = Some is64"
    and r: "macho_segment_containing_address mem m a = Some r"
    and c: "case containing_segment cs a of
              None \<Rightarrow> r = None
            | Some (va, vs, sects) \<Rightarrow>
                \<exists>q sz. r = Some q \<and> command_at mem m is64 q (Segment_entry sz va vs sects)"
    by blast
  show ?thesis
  proof (cases "containing_segment cs a")
    case None
    with c r have "macho_segment_containing_address mem m a = Some None" by simp
    from guess_symbol_size_no_segment [OF this] None show ?thesis
      by (simp add: applicable_bounds_def structural_bounds_def)
  next
    case (Some seg)
    obtain va vs sects where seg: "seg = (va, vs, sects)" by (cases seg) auto
    with c Some obtain q sz where q: "r = Some q"
      and cq: "command_at mem m is64 q (Segment_entry sz va vs sects)" by auto
    from cq have f: "segment_vmaddr mem m q = Some va" "segment_vmsize mem m q = Some vs"
      by simp_all
    from section_containing_address_described [OF w cq, of a] obtain t where
      t: "macho_section_containing_address mem m q a = Some t"
      and ct: "case containing_section sects a of
                 None \<Rightarrow> t = None
               | Some s \<Rightarrow> \<exists>sp. t = Some sp \<and> section_addr mem m sp = Some (sect_start s) \<and>
                            section_size mem m sp = Some (sect_length s)"
      by blast
    show ?thesis
    proof (cases "containing_section sects a")
      case None
      with ct t have "macho_section_containing_address mem m q a = Some None" by simp
      from guess_symbol_size_segment [OF _ this f] r q Some seg None show ?thesis
        by (simp add: applicable_bounds_def structural_bounds_def)
    next
      case (Some s)
      with ct t obtain sp where sp: "macho_section_containing_address mem m q a = Some (Some sp)"
        "section_addr mem m sp = Some (sect_start s)"
        "section_size mem m sp = Some (sect_length s)" by auto
      from guess_symbol_size_section [OF _ sp f] r q \<open>containing_segment cs a = Some seg\<close>
        seg Some
      show ?thesis by (simp add: applicable_bounds_def structural_bounds_def)
    qed
  qed
qed

text \<open>A list of bounds is tighter than another when it has a bound below each of its bounds.\<close>

lemma least_bound_sentinel_tighter:
  assumes nz: "least_bound_sentinel bs \<noteq> 0"
    and t: "\<forall>x\<in>set bs. \<exists>y\<in>set bs'. y \<le> x"
  shows "least_bound_sentinel bs' \<le> least_bound_sentinel bs"
proof -
  from nz have ne: "bs \<noteq> []" and n1: "Min (set bs) \<noteq> - 1"
    and eq: "least_bound_sentinel bs = Min (set bs)"
    by (auto simp: least_bound_sentinel_def split: if_splits)
  from ne have "Min (set bs) \<in> set bs" by simp
  with t obtain y where y: "y \<in> set bs'" "y \<le> Min (set bs)" by blast
  then have ne': "bs' \<noteq> []" by auto
  from y have le: "Min (set bs') \<le> Min (set bs)"
    by (meson List.finite_set Min_le order_trans)
  with n1 have "Min (set bs') \<noteq> - 1"
    by (auto simp: minus_one_le_iff)
  with ne' le eq show ?thesis by (simp add: least_bound_sentinel_def)
qed

lemma next_symbol_bound_closer:
  assumes "a < next'" and "next' \<le> next"
  shows "\<forall>x\<in>set (next_symbol_bound a next @ bs).
           \<exists>y\<in>set (next_symbol_bound a next' @ bs). y \<le> x"
proof -
  from assms have n': "next' \<noteq> - 1 \<or> next = - 1"
    by (auto simp: minus_one_le_iff)
  have "next' - a \<le> next - a"
    using assms by (simp add: word_le_nat_alt word_less_nat_alt unat_sub)
  with n' show ?thesis
    by (auto simp: next_symbol_bound_def)
qed

lemma word_diff_mono: "a < x \<Longrightarrow> x \<le> y \<Longrightarrow> x - a \<le> y - (a :: u64)"
proof -
  assume "a < x" and "x \<le> y"
  then have "unat a < unat x" and "unat x \<le> unat y" and "a \<le> x" and "a \<le> y"
    by (simp_all add: word_le_nat_alt word_less_nat_alt)
  then show ?thesis
    by (simp add: word_le_nat_alt unat_sub)
qed

lemma section_containing_address_loop_contains:
  "section_containing_address_loop mem m nsects sect_size a i sect = Some (Some sp) \<Longrightarrow>
   \<exists>sa ss. section_addr mem m sp = Some sa \<and> section_size mem m sp = Some ss \<and>
           sa \<le> a \<and> a < sa + ss"
proof (induction mem m nsects sect_size a i sect rule: section_containing_address_loop.induct)
  case (1 mem m nsects sect_size a i sect)
  from "1.prems" have i: "i < unat nsects"
    by (subst (asm) section_containing_address_loop.simps) (simp split: if_splits)
  from "1.prems" i obtain sa ss where
    sa: "section_addr mem m sect = Some sa" and ss: "section_size mem m sect = Some ss"
    by (subst (asm) section_containing_address_loop.simps) (auto split: Option.bind_splits)
  show ?case
  proof (cases "sa \<le> a \<and> a < sa + ss")
    case True
    with "1.prems" i sa ss have "sp = sect"
      by (subst (asm) section_containing_address_loop.simps) simp
    with True sa ss show ?thesis by simp
  next
    case False
    with "1.prems" i sa ss have
      "section_containing_address_loop mem m nsects sect_size a (i + 1) (sect + sect_size)
         = Some (Some sp)"
      by (subst (asm) section_containing_address_loop.simps) simp
    from "1.IH" [OF i sa ss False this] show ?thesis .
  qed
qed

lemma section_containing_address_contains:
  "macho_section_containing_address mem m lc a = Some (Some sp) \<Longrightarrow>
   \<exists>sa ss. section_addr mem m sp = Some sa \<and> section_size mem m sp = Some ss \<and>
           sa \<le> a \<and> a < sa + ss"
  by (auto simp: macho_section_containing_address_def split: Option.bind_splits
      dest: section_containing_address_loop_contains)

text \<open>
  C4, as amended. In an image that holds a command table, \<open>guess_symbol_size\<close> returns for
  every starting address and every next-symbol address: it returns the least of the bounds
  (a), (b) and (c) that apply, and 0 when none applies or when that least bound is
  \<open>2 ^ 64 - 1\<close>, the value that the code uses for "no bound yet". The containing segment is
  the first segment of the table that contains the address, the containing section the
  first section of that segment that does.
\<close>

theorem guess_symbol_size_least_bound:
  assumes "image_commands mem m cs"
  shows "guess_symbol_size mem m a next =
           Some (least_bound_sentinel (applicable_bounds cs a next)) \<and>
         (least_bound (applicable_bounds cs a next) \<noteq> - 1 \<longrightarrow>
            guess_symbol_size mem m a next = Some (least_bound (applicable_bounds cs a next)))"
  using guess_symbol_size_described [OF assms, of a "next"]
  by (simp add: least_bound_sentinel_def least_bound_def)

text \<open>
  C5, as amended. For a fixed starting address and a size returned that is not 0:
  supplying a closer next-symbol address (\<open>a < next' \<le> next\<close>, where \<open>next\<close> may be the
  value for "no next symbol") does not increase the size returned; and neither does an
  image in which the same segment holds an enclosing section that ends at or before the
  end of the enclosing section of the first image.
\<close>

theorem guess_symbol_size_monotone:
  assumes r: "guess_symbol_size mem m a next = Some r" and nz: "r \<noteq> 0"
  shows "(a < next' \<and> next' \<le> next \<longrightarrow>
            (\<exists>r'. guess_symbol_size mem m a next' = Some r' \<and> r' \<le> r)) \<and>
         (macho_segment_containing_address mem m a = Some (Some scp) \<and>
          segment_vmaddr mem m scp = Some va \<and> segment_vmsize mem m scp = Some vs \<and>
          macho_section_containing_address mem m scp a = Some (Some sp) \<and>
          section_addr mem m sp = Some sa \<and> section_size mem m sp = Some ss \<and>
          macho_segment_containing_address mem' m' a = Some (Some scp') \<and>
          segment_vmaddr mem' m' scp' = Some va \<and> segment_vmsize mem' m' scp' = Some vs \<and>
          macho_section_containing_address mem' m' scp' a = Some (Some sp') \<and>
          section_addr mem' m' sp' = Some sa' \<and> section_size mem' m' sp' = Some ss' \<and>
          sa' + ss' \<le> sa + ss \<longrightarrow>
            (\<exists>r'. guess_symbol_size mem' m' a next = Some r' \<and> r' \<le> r))"
proof (intro conjI impI)
  from guess_symbol_size_returns [OF r] obtain bs where
    bs: "\<And>n. guess_symbol_size mem m a n =
           Some (least_bound_sentinel (next_symbol_bound a n @ bs))" by blast
  from r bs have rb: "r = least_bound_sentinel (next_symbol_bound a next @ bs)" by simp
  {
    assume "a < next' \<and> next' \<le> next"
    then have "\<forall>x\<in>set (next_symbol_bound a next @ bs).
                 \<exists>y\<in>set (next_symbol_bound a next' @ bs). y \<le> x"
      by (intro next_symbol_bound_closer) auto
    from least_bound_sentinel_tighter [OF _ this] nz rb
    have "least_bound_sentinel (next_symbol_bound a next' @ bs) \<le> r" by simp
    then show "\<exists>r'. guess_symbol_size mem m a next' = Some r' \<and> r' \<le> r"
      by (simp add: bs)
  }
  {
    assume h: "macho_segment_containing_address mem m a = Some (Some scp) \<and>
          segment_vmaddr mem m scp = Some va \<and> segment_vmsize mem m scp = Some vs \<and>
          macho_section_containing_address mem m scp a = Some (Some sp) \<and>
          section_addr mem m sp = Some sa \<and> section_size mem m sp = Some ss \<and>
          macho_segment_containing_address mem' m' a = Some (Some scp') \<and>
          segment_vmaddr mem' m' scp' = Some va \<and> segment_vmsize mem' m' scp' = Some vs \<and>
          macho_section_containing_address mem' m' scp' a = Some (Some sp') \<and>
          section_addr mem' m' sp' = Some sa' \<and> section_size mem' m' sp' = Some ss' \<and>
          sa' + ss' \<le> sa + ss"
    then have g: "guess_symbol_size mem m a next =
        Some (least_bound_sentinel (next_symbol_bound a next @ [sa + ss - a, va + vs - a]))"
      by (intro guess_symbol_size_section) auto
    from h have g': "guess_symbol_size mem' m' a next =
        Some (least_bound_sentinel (next_symbol_bound a next @ [sa' + ss' - a, va + vs - a]))"
      by (intro guess_symbol_size_section) auto
    from g r have rs: "r = least_bound_sentinel
        (next_symbol_bound a next @ [sa + ss - a, va + vs - a])" by simp
    from h section_containing_address_contains [of mem' m' scp' a sp']
    have c': "a < sa' + ss'" by auto
    with h have "sa' + ss' - a \<le> sa + ss - a"
      by (intro word_diff_mono) auto
    then have "\<forall>x\<in>set (next_symbol_bound a next @ [sa + ss - a, va + vs - a]).
                 \<exists>y\<in>set (next_symbol_bound a next @ [sa' + ss' - a, va + vs - a]). y \<le> x"
      by auto
    from least_bound_sentinel_tighter [OF _ this] nz rs
    have "least_bound_sentinel (next_symbol_bound a next @ [sa' + ss' - a, va + vs - a]) \<le> r"
      by simp
    then show "\<exists>r'. guess_symbol_size mem' m' a next = Some r' \<and> r' \<le> r"
      by (simp add: g')
  }
qed

section \<open>Properties of the string table\<close>

lemma name_at_zero_iff: "0 \<notin> set name \<Longrightarrow> (name_at name p = 0) = (length name \<le> p)"
  by (auto simp: name_at_def dest: nth_mem [of p name])

lemma matched_no_nul:
  assumes "0 \<notin> set name" and "p \<le> length name"
    and "\<forall>k<p. mem (c + k) = Some (name ! k)" and "mem z = Some 0" and "c \<le> z"
  shows "c + p \<le> z"
proof (rule ccontr)
  assume "\<not> c + p \<le> z"
  with assms(5) have k: "z - c < p" "c + (z - c) = z" by simp_all
  with assms(3) have "mem z = Some (name ! (z - c))" by metis
  with assms(4) have "name ! (z - c) = 0" by simp
  moreover from k assms(2) have "name ! (z - c) \<in> set name" by simp
  ultimately show False using assms(1) by simp
qed

lemma skip_to_nul_spec:
  assumes "\<forall>a. str \<le> a \<and> a < e \<longrightarrow> mem a \<noteq> None"
  shows "\<exists>s. skip_to_nul mem e str = Some s \<and> str \<le> s \<and> (str \<le> e \<longrightarrow> s \<le> e) \<and>
             (\<forall>a. str \<le> a \<and> a < s \<longrightarrow> mem a \<noteq> Some 0) \<and> (s < e \<longrightarrow> mem s = Some 0)"
  using assms
proof (induction mem e str rule: skip_to_nul.induct)
  case (1 mem e str)
  show ?case
  proof (cases "str < e")
    case False
    then have "skip_to_nul mem e str = Some str"
      by (subst skip_to_nul.simps) simp
    with False show ?thesis by auto
  next
    case True
    with "1.prems" obtain c where c: "mem str = Some c" by auto
    show ?thesis
    proof (cases "c = 0")
      case True
      with \<open>str < e\<close> c have "skip_to_nul mem e str = Some str"
        by (subst skip_to_nul.simps) (simp add: rd8_def)
      with True c \<open>str < e\<close> show ?thesis by auto
    next
      case False
      have r: "\<forall>a. str + 1 \<le> a \<and> a < e \<longrightarrow> mem a \<noteq> None"
        using "1.prems" by auto
      from "1.IH" [OF \<open>str < e\<close> _ False r] c obtain s where
        s: "skip_to_nul mem e (str + 1) = Some s" "str + 1 \<le> s" "s \<le> e"
          "\<forall>a. str + 1 \<le> a \<and> a < s \<longrightarrow> mem a \<noteq> Some 0" "s < e \<longrightarrow> mem s = Some 0"
        using \<open>str < e\<close> by (auto simp: rd8_def)
      have "skip_to_nul mem e str = Some s"
        using \<open>str < e\<close> c False s(1) by (subst skip_to_nul.simps) (simp add: rd8_def)
      moreover have "\<forall>a. str \<le> a \<and> a < s \<longrightarrow> mem a \<noteq> Some 0"
      proof (intro allI impI)
        fix a assume a: "str \<le> a \<and> a < s"
        show "mem a \<noteq> Some 0"
        proof (cases "a = str")
          case True with c False show ?thesis by simp
        next
          case False with a s(4) show ?thesis by auto
        qed
      qed
      ultimately show ?thesis using s by auto
    qed
  qed
qed

text \<open>
  The scan from a candidate \<open>c\<close> whose first \<open>p\<close> bytes have matched the name, when the
  name is stored at \<open>i\<close>, the start of an entry at or after \<open>c\<close>.
\<close>

lemma string_index_loop_finds:
  assumes stored: "c_string mem i name"
    and inside: "i + length name < e"
    and rd: "\<forall>a. base + 4 \<le> a \<and> a < e \<longrightarrow> mem a \<noteq> None"
  shows "base + 4 \<le> c \<Longrightarrow> c \<le> i \<Longrightarrow> c = i \<or> mem (i - 1) = Some 0 \<Longrightarrow>
         p \<le> length name \<Longrightarrow> \<forall>k<p. mem (c + k) = Some (name ! k) \<Longrightarrow>
         \<exists>r. string_index_loop mem name base e (of_nat (c - base)) p (c + p)
                = Some (of_nat (r - base)) \<and> c \<le> r \<and> r \<le> i \<and> c_string mem r name"
proof (induction "e - (c + p)" arbitrary: c p rule: less_induct)
  case less
  from stored have nz: "0 \<notin> set name" by (simp add: c_string_def)
  have lt_i: "c + p \<le> i + length name"
  proof (cases "c = i")
    case True with less.prems show ?thesis by simp
  next
    case False
    with less.prems have z: "mem (i - 1) = Some 0" and ci: "c < i" by auto
    from ci have "c \<le> i - 1" by simp
    from matched_no_nul [OF nz less.prems(4,5) z this] show ?thesis by simp
  qed
  with inside have str_lt: "c + p < e" by simp
  with rd less.prems obtain ch where ch: "mem (c + p) = Some ch" by fastforce
  show ?case
  proof (cases "name_at name p = ch")
    case False
    have ci: "c < i"
    proof (rule ccontr)
      assume "\<not> c < i"
      with less.prems have "c = i" by simp
      with stored less.prems have "mem (c + p) = Some (name_at name p)"
        by (cases "p < length name") (auto simp: c_string_def name_at_def)
      with ch False show False by simp
    qed
    with less.prems have z: "mem (i - 1) = Some 0" by auto
    have rd': "\<forall>a. c + p \<le> a \<and> a < e \<longrightarrow> mem a \<noteq> None"
      using rd less.prems by auto
    from skip_to_nul_spec [OF rd'] obtain s where
      s: "skip_to_nul mem e (c + p) = Some s" "c + p \<le> s" "s \<le> e"
        "\<forall>a. c + p \<le> a \<and> a < s \<longrightarrow> mem a \<noteq> Some 0" "s < e \<longrightarrow> mem s = Some 0"
      using str_lt by auto
    from ci have "c \<le> i - 1" by simp
    from matched_no_nul [OF nz less.prems(4,5) z this] have cp_le: "c + p \<le> i - 1" .
    have s_le: "s \<le> i - 1"
    proof (rule ccontr)
      assume "\<not> s \<le> i - 1"
      with s(4) cp_le have "mem (i - 1) \<noteq> Some 0" by auto
      with z show False by simp
    qed
    let ?c' = "s + 1"
    have c'i: "?c' \<le> i" using s_le ci by simp
    have m: "e - (?c' + 0) < e - (c + p)" using s(2) str_lt by simp
    have "\<exists>r. string_index_loop mem name base e (of_nat (?c' - base)) 0 (?c' + 0)
                = Some (of_nat (r - base)) \<and> ?c' \<le> r \<and> r \<le> i \<and> c_string mem r name"
    proof (rule less.hyps [OF m])
      show "base + 4 \<le> ?c'" using less.prems s(2) by simp
      show "?c' \<le> i" by (rule c'i)
      show "?c' = i \<or> mem (i - 1) = Some 0" using z by simp
      show "0 \<le> length name" by simp
      show "\<forall>k<0. mem (?c' + k) = Some (name ! k)" by simp
    qed
    then obtain r where r: "string_index_loop mem name base e (of_nat (?c' - base)) 0 ?c'
        = Some (of_nat (r - base))" "?c' \<le> r" "r \<le> i" "c_string mem r name" by auto
    have "string_index_loop mem name base e (of_nat (c - base)) p (c + p)
            = Some (of_nat (r - base))"
      using str_lt ch False s(1) r(1)
      by (subst string_index_loop.simps) (simp add: rd8_def)
    moreover have "c \<le> r" using r(2) s(2) by simp
    ultimately show ?thesis using r by blast
  next
    case True
    show ?thesis
    proof (cases "name_at name p = 0")
      case z: True
      with nz less.prems have pl: "p = length name"
        by (simp add: name_at_zero_iff)
      have "string_index_loop mem name base e (of_nat (c - base)) p (c + p)
              = Some (of_nat (c - base))"
        using str_lt ch True z by (subst string_index_loop.simps) (simp add: rd8_def)
      moreover have "c_string mem c name"
        using nz less.prems pl ch True z by (simp add: c_string_def)
      ultimately show ?thesis using less.prems by blast
    next
      case nzp: False
      with nz have pl: "p < length name"
        by (simp add: name_at_zero_iff)
      have m: "e - (c + (p + 1)) < e - (c + p)" using str_lt by simp
      have "\<exists>r. string_index_loop mem name base e (of_nat (c - base)) (p + 1) (c + (p + 1))
                = Some (of_nat (r - base)) \<and> c \<le> r \<and> r \<le> i \<and> c_string mem r name"
      proof (rule less.hyps [OF m])
        show "base + 4 \<le> c" "c \<le> i" "c = i \<or> mem (i - 1) = Some 0"
          using less.prems by auto
        show "p + 1 \<le> length name" using pl by simp
        show "\<forall>k<p + 1. mem (c + k) = Some (name ! k)"
        proof (intro allI impI)
          fix k assume "k < p + 1"
          then consider "k < p" | "k = p" by linarith
          then show "mem (c + k) = Some (name ! k)"
          proof cases
            case 1 with less.prems show ?thesis by simp
          next
            case 2 with ch True pl show ?thesis by (simp add: name_at_def)
          qed
        qed
      qed
      then obtain r where r: "string_index_loop mem name base e (of_nat (c - base)) (p + 1)
          (c + (p + 1)) = Some (of_nat (r - base))" "c \<le> r" "r \<le> i" "c_string mem r name"
        by auto
      have "string_index_loop mem name base e (of_nat (c - base)) p (c + p)
              = Some (of_nat (r - base))"
        using str_lt ch True nzp r(1)
        by (subst string_index_loop.simps) (simp add: rd8_def add.assoc)
      with r show ?thesis by blast
    qed
  qed
qed

lemma string_index_loop_sound:
  "string_index_loop mem name base e strx p str = Some r \<Longrightarrow> r \<noteq> 0 \<Longrightarrow> 0 \<notin> set name \<Longrightarrow>
   strx = of_nat (str - p - base) \<Longrightarrow> p \<le> str \<Longrightarrow> p \<le> length name \<Longrightarrow>
   \<forall>k<p. mem (str - p + k) = Some (name ! k) \<Longrightarrow>
   \<exists>c. r = of_nat (c - base) \<and> str - p \<le> c \<and> c + length name < e \<and> c_string mem c name"
proof (induction mem name base e strx p str rule: string_index_loop.induct)
  case (1 mem name base e strx p str)
  from "1.prems"(1,2) have lt: "\<not> e \<le> str"
    by (subst (asm) string_index_loop.simps) (auto split: if_splits)
  with "1.prems"(1) obtain ch where ch: "rd8 mem str = Some ch"
    by (subst (asm) string_index_loop.simps) (auto split: Option.bind_splits)
  show ?case
  proof (cases "name_at name p = ch")
    case False
    with "1.prems"(1) lt ch obtain str' where
      s: "skip_to_nul mem e str = Some str'" and
      rec: "string_index_loop mem name base e (of_nat (str' + 1 - base)) 0 (str' + 1) = Some r"
      by (subst (asm) string_index_loop.simps) (auto split: Option.bind_splits)
    have "\<exists>c. r = of_nat (c - base) \<and> str' + 1 - 0 \<le> c \<and> c + length name < e \<and>
              c_string mem c name"
      by (rule "1.IH"(1) [OF lt ch False s rec]) (use "1.prems" in simp_all)
    moreover from skip_to_nul_ge [OF s] have "str - p \<le> str' + 1" by simp
    ultimately show ?thesis by fastforce
  next
    case True
    show ?thesis
    proof (cases "name_at name p = 0")
      case z: True
      with "1.prems" have pl: "p = length name"
        by (simp add: name_at_zero_iff)
      from "1.prems"(1) lt ch True z have "r = strx"
        by (subst (asm) string_index_loop.simps) simp
      moreover have "c_string mem (str - p) name"
        using "1.prems" pl ch True z by (simp add: c_string_def rd8_def)
      ultimately show ?thesis using "1.prems" pl lt
        by (intro exI [of _ "str - p"]) simp
    next
      case nzp: False
      with "1.prems" have pl: "p < length name"
        by (simp add: name_at_zero_iff)
      from "1.prems"(1) lt ch True nzp have
        rec: "string_index_loop mem name base e strx (p + 1) (str + 1) = Some r"
        by (subst (asm) string_index_loop.simps) simp
      have m: "\<forall>k<p + 1. mem (str + 1 - (p + 1) + k) = Some (name ! k)"
      proof (intro allI impI)
        fix k assume "k < p + 1"
        then consider "k < p" | "k = p" by linarith
        then show "mem (str + 1 - (p + 1) + k) = Some (name ! k)"
        proof cases
          case 1 with "1.prems" show ?thesis by simp
        next
          case 2 with ch True pl "1.prems" show ?thesis by (simp add: name_at_def rd8_def)
        qed
      qed
      have "\<exists>c. r = of_nat (c - base) \<and> str + 1 - (p + 1) \<le> c \<and> c + length name < e \<and>
              c_string mem c name"
        by (rule "1.IH"(2) [OF lt ch _ nzp rec]) (use "1.prems" True pl m in simp_all)
      then show ?thesis by simp
    qed
  qed
qed

lemma string_index_loop_total:
  "\<forall>a. str \<le> a \<and> a < e \<longrightarrow> mem a \<noteq> None \<Longrightarrow>
   \<exists>r. string_index_loop mem name base e strx p str = Some r"
proof (induction mem name base e strx p str rule: string_index_loop.induct)
  case (1 mem name base e strx p str)
  show ?case
  proof (cases "e \<le> str")
    case True
    then show ?thesis by (subst string_index_loop.simps) simp
  next
    case False
    with "1.prems" obtain ch where ch: "rd8 mem str = Some ch"
      by (auto simp: rd8_def)
    show ?thesis
    proof (cases "name_at name p = ch")
      case ne: False
      from skip_to_nul_spec [OF "1.prems"] obtain s where
        s: "skip_to_nul mem e str = Some s" "str \<le> s" by auto
      have "\<forall>a. s + 1 \<le> a \<and> a < e \<longrightarrow> mem a \<noteq> None"
        using "1.prems" s(2) by auto
      from "1.IH"(1) [OF False ch ne s(1) this] obtain r where
        "string_index_loop mem name base e (of_nat (s + 1 - base)) 0 (s + 1) = Some r" ..
      with False ch ne s(1) show ?thesis
        by (subst string_index_loop.simps) simp
    next
      case True
      show ?thesis
      proof (cases "name_at name p = 0")
        case z: True
        with False ch True show ?thesis
          by (subst string_index_loop.simps) simp
      next
        case nzp: False
        have "\<forall>a. str + 1 \<le> a \<and> a < e \<longrightarrow> mem a \<noteq> None"
          using "1.prems" by auto
        from "1.IH"(2) [OF False ch _ nzp this] True obtain r where
          "string_index_loop mem name base e strx (p + 1) (str + 1) = Some r" by auto
        with False ch True nzp show ?thesis
          by (subst string_index_loop.simps) simp
      qed
    qed
  qed
qed

lemma readable_range: "readable mem a n \<Longrightarrow> a \<le> x \<Longrightarrow> x < a + n \<Longrightarrow> mem x \<noteq> None"
  using readable_mem [of mem a n "x - a"] by auto

lemma symtab_string_index_total:
  assumes "readable mem (mh m + unat (stroff symtab) + 4) (unat (strsize symtab) - 4)"
  shows "\<exists>strx. macho_symtab_string_index mem m symtab name = Some strx"
proof -
  have "\<forall>a. mh m + unat (stroff symtab) + 4 \<le> a \<and> a < mh m + unat (stroff symtab) + unat (strsize symtab)
          \<longrightarrow> mem a \<noteq> None"
    using readable_range [OF assms] by auto
  from string_index_loop_total [OF this] show ?thesis
    by (simp add: macho_symtab_string_index_def Let_def)
qed

lemma symtab_string_index_sound:
  assumes "macho_symtab_string_index mem m symtab name = Some strx" and "strx \<noteq> 0"
    and "0 \<notin> set name"
  shows "\<exists>i. strx = of_nat i \<and> 4 \<le> i \<and> i + length name < unat (strsize symtab) \<and>
             c_string mem (mh m + unat (stroff symtab) + i) name"
proof -
  let ?base = "mh m + unat (stroff symtab)"
  from assms(1) have l: "string_index_loop mem name ?base (?base + unat (strsize symtab))
      (of_nat (?base + 4 - ?base)) 0 (?base + 4) = Some strx"
    by (simp add: macho_symtab_string_index_def Let_def)
  have "\<exists>c. strx = of_nat (c - ?base) \<and> ?base + 4 - 0 \<le> c \<and>
             c + length name < ?base + unat (strsize symtab) \<and> c_string mem c name"
    by (rule string_index_loop_sound [OF l assms(2,3)]) simp_all
  then obtain c where c: "strx = of_nat (c - ?base)" "?base + 4 \<le> c"
    "c + length name < ?base + unat (strsize symtab)" "c_string mem c name" by auto
  from c(2) have "?base + (c - ?base) = c" by simp
  with c show ?thesis
    by (intro exI [of _ "c - ?base"]) auto
qed

lemma symtab_string_index_absent:
  assumes "readable mem (mh m + unat (stroff symtab) + 4) (unat (strsize symtab) - 4)"
    and "0 \<notin> set name" and "\<not> name_in_blob mem m symtab name"
  shows "macho_symtab_string_index mem m symtab name = Some 0"
proof -
  from symtab_string_index_total [OF assms(1)] obtain strx where
    s: "macho_symtab_string_index mem m symtab name = Some strx" ..
  have "strx = 0"
  proof (rule ccontr)
    assume "strx \<noteq> 0"
    from symtab_string_index_sound [OF s this assms(2)] assms(3) show False
      by (auto simp: name_in_blob_def)
  qed
  with s show ?thesis by simp
qed

lemma symtab_string_index_finds:
  assumes stored: "c_string mem (mh m + unat (stroff symtab) + i) name"
    and i4: "4 \<le> i" and inside: "i + length name < unat (strsize symtab)"
    and start: "i = 4 \<or> mem (mh m + unat (stroff symtab) + i - 1) = Some 0"
    and rd: "readable mem (mh m + unat (stroff symtab) + 4) (unat (strsize symtab) - 4)"
  shows "\<exists>j. macho_symtab_string_index mem m symtab name = Some (of_nat j) \<and> 4 \<le> j \<and> j \<le> i \<and>
             c_string mem (mh m + unat (stroff symtab) + j) name"
proof -
  let ?base = "mh m + unat (stroff symtab)"
  let ?e = "?base + unat (strsize symtab)"
  have r: "\<forall>a. ?base + 4 \<le> a \<and> a < ?e \<longrightarrow> mem a \<noteq> None"
    using readable_range [OF rd] by auto
  have "\<exists>r. string_index_loop mem name ?base ?e (of_nat (?base + 4 - ?base)) 0 (?base + 4 + 0)
               = Some (of_nat (r - ?base)) \<and> ?base + 4 \<le> r \<and> r \<le> ?base + i \<and>
             c_string mem r name"
  proof (rule string_index_loop_finds [OF stored _ r])
    show "?base + i + length name < ?e" using inside by simp
    show "?base + 4 \<le> ?base + 4" by simp
    show "?base + 4 \<le> ?base + i" using i4 by simp
    show "?base + 4 = ?base + i \<or> mem (?base + i - 1) = Some 0" using start by auto
    show "0 \<le> length name" by simp
    show "\<forall>k<0. mem (?base + 4 + k) = Some (name ! k)" by simp
  qed
  then obtain r where r: "string_index_loop mem name ?base ?e (of_nat (?base + 4 - ?base)) 0
      (?base + 4) = Some (of_nat (r - ?base))" "?base + 4 \<le> r" "r \<le> ?base + i"
    "c_string mem r name" by auto
  from r(2) have "?base + (r - ?base) = r" by simp
  with r show ?thesis
    by (intro exI [of _ "r - ?base"]) (auto simp: macho_symtab_string_index_def Let_def)
qed

text \<open>
  C7, as amended. For every name stored as a C string at an index \<open>i\<close> of the string blob
  that is at least 4, with its terminator inside the blob, and that starts an entry (\<open>i\<close> is
  4, or the byte before index \<open>i\<close> is 0): \<^verbatim>\<open>macho_symtab_string\<close>, applied to the index
  that \<^verbatim>\<open>macho_symtab_string_index\<close> returns for the name, returns a pointer to a string
  equal to the name. The blob is readable from index 4 on.
\<close>

theorem string_index_round_trip:
  assumes stored: "c_string mem (mh m + unat (stroff symtab) + i) name"
    and i4: "4 \<le> i" and inside: "i + length name < unat (strsize symtab)"
    and start: "i = 4 \<or> mem (mh m + unat (stroff symtab) + i - 1) = Some 0"
    and rd: "readable mem (mh m + unat (stroff symtab) + 4) (unat (strsize symtab) - 4)"
  shows "string_round_trip mem m symtab name"
proof -
  from symtab_string_index_finds [OF assms] obtain j where
    j: "macho_symtab_string_index mem m symtab name = Some (of_nat j)" "4 \<le> j" "j \<le> i"
      "c_string mem (mh m + unat (stroff symtab) + j) name" by blast
  from j(3) inside have jlt: "j < unat (strsize symtab)" by simp
  then have u: "unat (of_nat j :: u32) = j"
    by (intro le_unat_uoi [of _ "strsize symtab"]) simp
  have "\<not> (of_nat j :: u32) < 4" using j(2) u by (simp add: word_less_nat_alt)
  moreover have "\<not> strsize symtab \<le> (of_nat j :: u32)" using jlt u by (simp add: word_le_nat_alt)
  ultimately have "macho_symtab_string m symtab (of_nat j) = Some (mh m + unat (stroff symtab) + j)"
    by (simp add: macho_symtab_string_def Let_def u)
  with j show ?thesis by (simp add: string_round_trip_def)
qed

section \<open>Properties of symbol and address resolution\<close>

lemma sym_entry_reads:
  assumes "sym_entry mem m symtab i = Some e"
  shows "\<exists>nl. macho_get_nlist mem m symtab i = Some nl \<and>
              nlist_n_strx mem m nl = Some (entry_strx e) \<and>
              nlist_n_type mem m nl = Some (entry_type e) \<and>
              nlist_n_sect mem m nl = Some (entry_sect e) \<and>
              nlist_n_value mem m nl = Some (entry_value e)"
  using assms by (auto simp: sym_entry_def split: Option.bind_splits)

lemma symbol_table_reads:
  assumes "symbol_table mem m symtab ents" and "i < unat (nsyms symtab)"
  shows "\<exists>nl. macho_get_nlist mem m symtab i = Some nl \<and>
              nlist_n_strx mem m nl = Some (entry_strx (ents i)) \<and>
              nlist_n_type mem m nl = Some (entry_type (ents i)) \<and>
              nlist_n_sect mem m nl = Some (entry_sect (ents i)) \<and>
              nlist_n_value mem m nl = Some (entry_value (ents i))"
  using assms by (auto simp: symbol_table_def intro: sym_entry_reads)

lemma find_upt_step:
  "i < n \<Longrightarrow> find P [i..<n] = (if P i then Some i else find P [i + 1..<n])"
  by (simp add: upt_conv_Cons)

lemma index_not_sentinel:
  assumes "k < unat (n :: u32)"
  shows "(of_nat k :: u32) \<noteq> - 1"
proof
  assume "(of_nat k :: u32) = - 1"
  moreover have "unat (of_nat k :: u32) = k"
    using assms by (intro le_unat_uoi [of _ n]) simp
  ultimately have "k = unat (- 1 :: u32)" by simp
  moreover have "unat n \<le> unat (- 1 :: u32)"
    by (simp add: word_le_nat_alt [symmetric])
  ultimately show False using assms by simp
qed

lemma resolve_symbol_loop_find:
  assumes tab: "symbol_table mem m symtab ents"
  shows "resolve_symbol_loop mem m symtab strx i =
     Some (case find (\<lambda>j. entry_strx (ents j) = strx) [i..<unat (nsyms symtab)] of
             None \<Rightarrow> Inr (0, - 1)
           | Some k \<Rightarrow>
               if entry_type (ents k) AND N_TYPE = N_UNDF then Inl MACHO_NOT_FOUND
               else if entry_type (ents k) AND N_TYPE \<noteq> N_SECT then Inl MACHO_ERROR
               else Inr (entry_value (ents k), of_nat k))"
proof (induction "unat (nsyms symtab) - i" arbitrary: i rule: less_induct)
  case less
  show ?case
  proof (cases "i < unat (nsyms symtab)")
    case False
    then show ?thesis by (subst resolve_symbol_loop.simps) simp
  next
    case True
    from symbol_table_reads [OF tab True] obtain nl where
      nl: "macho_get_nlist mem m symtab i = Some nl"
        "nlist_n_strx mem m nl = Some (entry_strx (ents i))"
        "nlist_n_type mem m nl = Some (entry_type (ents i))"
        "nlist_n_value mem m nl = Some (entry_value (ents i))" by blast
    show ?thesis
    proof (cases "entry_strx (ents i) = strx")
      case eq: True
      with True nl show ?thesis
        by (subst resolve_symbol_loop.simps) (simp add: find_upt_step)
    next
      case ne: False
      have "unat (nsyms symtab) - (i + 1) < unat (nsyms symtab) - i" using True by simp
      from less.hyps [OF this] True nl ne show ?thesis
        by (subst resolve_symbol_loop.simps) (simp add: find_upt_step)
    qed
  qed
qed

lemma find_upt_less: "find P [0..<n] = Some k \<Longrightarrow> k < n"
  by (auto simp: find_Some_iff)

lemma resolve_symbol_found:
  assumes tab: "symbol_table mem m symtab ents"
    and s: "macho_symtab_string_index mem m symtab symbol = Some strx" and nz: "strx \<noteq> 0"
  shows "macho_resolve_symbol mem m symtab symbol want_addr want_size =
     (case find (\<lambda>j. entry_strx (ents j) = strx) [0..<unat (nsyms symtab)] of
        None \<Rightarrow> Some (MACHO_NOT_FOUND, None, None)
      | Some k \<Rightarrow>
          if entry_type (ents k) AND N_TYPE = N_UNDF then Some (MACHO_NOT_FOUND, None, None)
          else if entry_type (ents k) AND N_TYPE \<noteq> N_SECT then Some (MACHO_ERROR, None, None)
          else if want_size
            then map_option
                   (\<lambda>g. (MACHO_SUCCESS,
                         if want_addr then Some (entry_value (ents k)) else None, Some g))
                   (guessed_size mem m symtab (entry_value (ents k)))
            else Some (MACHO_SUCCESS,
                       if want_addr then Some (entry_value (ents k)) else None, None))"
proof (cases "find (\<lambda>j. entry_strx (ents j) = strx) [0..<unat (nsyms symtab)]")
  case None
  then show ?thesis
    by (simp add: macho_resolve_symbol_def s nz resolve_symbol_loop_find [OF tab])
next
  case (Some k)
  from find_upt_less [OF Some] have "(of_nat k :: u32) \<noteq> - 1" by (rule index_not_sentinel)
  with Some show ?thesis
    by (simp add: macho_resolve_symbol_def s nz resolve_symbol_loop_find [OF tab]
        guessed_size_def split: Option.bind_splits option.splits)
qed

text \<open>\<^verbatim>\<open>macho_next_symbol\<close> returns the next symbol of the specification.\<close>

lemma fold_next_symbol:
  "fold (\<lambda>j nx. if a < val j \<and> val j < nx then val j else nx) js (nx :: u64) =
     (let later = filter (\<lambda>v. a < v) (map val js)
      in if later = [] then nx else min nx (Min (set later)))"
proof (induction js arbitrary: nx)
  case Nil
  then show ?case by simp
next
  case (Cons j js)
  define later where "later = filter (\<lambda>v. a < v) (map val js)"
  note ih = Cons.IH [unfolded Let_def, folded later_def]
  show ?case
  proof (cases "a < val j")
    case False
    then have "filter (\<lambda>v. a < v) (map val (j # js)) = later" by (simp add: later_def)
    with False ih [of nx] show ?thesis by (simp add: Let_def)
  next
    case True
    then have l: "filter (\<lambda>v. a < v) (map val (j # js)) = val j # later"
      by (simp add: later_def)
    have "(if a < val j \<and> val j < nx then val j else nx) = min nx (val j)"
      using True by (auto simp: min_def)
    then have step: "fold (\<lambda>j nx. if a < val j \<and> val j < nx then val j else nx) (j # js) nx =
        fold (\<lambda>j nx. if a < val j \<and> val j < nx then val j else nx) js (min nx (val j))"
      by simp
    show ?thesis
    proof (cases "later = []")
      case e: True
      with step ih [of "min nx (val j)"] l show ?thesis by (simp add: Let_def)
    next
      case ne: False
      then have "Min (set (val j # later)) = min (val j) (Min (set later))"
        by (simp add: Min_insert)
      with step ih [of "min nx (val j)"] l ne show ?thesis
        by (simp add: Let_def min.assoc)
    qed
  qed
qed

lemma next_symbol_loop_fold:
  assumes tab: "symbol_table mem m symtab ents"
  shows "next_symbol_loop mem m symtab a i next =
           Some (fold (\<lambda>j nx. if entry_value (ents j) > a \<and> entry_value (ents j) < nx
                               then entry_value (ents j) else nx)
                   [i..<unat (nsyms symtab)] next)"
proof (induction "unat (nsyms symtab) - i" arbitrary: i "next" rule: less_induct)
  case less
  show ?case
  proof (cases "i < unat (nsyms symtab)")
    case False
    then show ?thesis by (subst next_symbol_loop.simps) simp
  next
    case True
    from symbol_table_reads [OF tab True] obtain nl where
      nl: "macho_get_nlist mem m symtab i = Some nl"
        "nlist_n_value mem m nl = Some (entry_value (ents i))" by blast
    have "unat (nsyms symtab) - (i + 1) < unat (nsyms symtab) - i" using True by simp
    from less.hyps [OF this] True nl show ?thesis
      by (subst next_symbol_loop.simps) (simp add: upt_conv_Cons)
  qed
qed

lemma next_symbol_described:
  assumes tab: "symbol_table mem m symtab ents"
  shows "macho_next_symbol mem m symtab a = Some (next_symbol_after ents (unat (nsyms symtab)) a)"
proof -
  have "min (- 1) x = x" for x :: u64
    by (simp add: min_def minus_one_le_iff)
  then show ?thesis
    by (simp add: macho_next_symbol_def next_symbol_loop_fold [OF tab] next_symbol_after_def
        fold_next_symbol [where val = "\<lambda>j. entry_value (ents j)"] Let_def)
qed

lemma guessed_size_described:
  assumes "symbol_table mem m symtab ents" and "image_commands mem m cs"
  shows "guessed_size mem m symtab a = Some (size_guess cs symtab ents a)"
  by (simp add: guessed_size_def next_symbol_described [OF assms(1)]
      guess_symbol_size_described [OF assms(2)] size_guess_def)

lemma resolve_symbol_refines:
  assumes tab: "symbol_table mem m symtab ents" and cmds: "image_commands mem m cs"
    and s: "macho_symtab_string_index mem m symtab symbol = Some strx" and nz: "strx \<noteq> 0"
  shows "macho_resolve_symbol mem m symtab symbol want_addr want_size =
           Some (resolve_symbol_spec cs symtab ents strx want_addr want_size)"
  by (simp add: resolve_symbol_found [OF tab s nz] guessed_size_described [OF tab cmds]
      resolve_symbol_spec_def split: option.splits)

text \<open>
  C3, as amended. In an image that holds a command table, a readable symbol table and a
  readable string blob, \<^verbatim>\<open>macho_resolve_symbol\<close> returns for every name. It returns
  \<^verbatim>\<open>MACHO_NOT_FOUND\<close> when \<^verbatim>\<open>macho_symtab_string_index\<close> returns 0 for the name, as it does
  when the name is absent from the string blob, and as it does not when the name starts an
  entry of the blob. Otherwise the index \<open>strx\<close> returned is one at which the blob holds the
  name, and only the first entry (lowest index) whose string index equals \<open>strx\<close> is
  considered: the result is \<^verbatim>\<open>MACHO_NOT_FOUND\<close> when that entry's type
  masked by \<^verbatim>\<open>N_TYPE\<close> is \<^verbatim>\<open>N_UNDF\<close>, \<^verbatim>\<open>MACHO_ERROR\<close> when it is neither \<^verbatim>\<open>N_UNDF\<close> nor
  \<^verbatim>\<open>N_SECT\<close>, and otherwise \<^verbatim>\<open>MACHO_SUCCESS\<close> with that entry's address and the guessed
  size; and \<^verbatim>\<open>MACHO_NOT_FOUND\<close> when no entry's string index equals \<open>strx\<close>.
\<close>

theorem macho_resolve_symbol_cases:
  assumes tab: "symbol_table mem m symtab ents" and cmds: "image_commands mem m cs"
    and blob: "readable mem (mh m + unat (stroff symtab) + 4) (unat (strsize symtab) - 4)"
    and name: "0 \<notin> set symbol"
  shows "\<exists>strx. macho_symtab_string_index mem m symtab symbol = Some strx \<and>
           (\<not> name_in_blob mem m symtab symbol \<longrightarrow> strx = 0) \<and>
           (strx \<noteq> 0 \<longrightarrow>
              (\<exists>i. strx = of_nat i \<and> 4 \<le> i \<and> i + length symbol < unat (strsize symtab) \<and>
                   c_string mem (mh m + unat (stroff symtab) + i) symbol)) \<and>
           (\<forall>i. 4 \<le> i \<and> i + length symbol < unat (strsize symtab) \<and>
                c_string mem (mh m + unat (stroff symtab) + i) symbol \<and>
                (i = 4 \<or> mem (mh m + unat (stroff symtab) + i - 1) = Some 0) \<longrightarrow>
                strx \<noteq> 0) \<and>
           macho_resolve_symbol mem m symtab symbol want_addr want_size =
             Some (if strx = 0 then (MACHO_NOT_FOUND, None, None)
                   else resolve_symbol_spec cs symtab ents strx want_addr want_size)"
proof -
  from symtab_string_index_total [OF blob] obtain strx where
    s: "macho_symtab_string_index mem m symtab symbol = Some strx" ..
  have absent: "strx = 0" if "\<not> name_in_blob mem m symtab symbol"
    using symtab_string_index_absent [OF blob name that] s by simp
  have stored: "\<exists>i. strx = of_nat i \<and> 4 \<le> i \<and> i + length symbol < unat (strsize symtab) \<and>
                   c_string mem (mh m + unat (stroff symtab) + i) symbol" if "strx \<noteq> 0"
    using symtab_string_index_sound [OF s that name] .
  have anchored: "strx \<noteq> 0"
    if "4 \<le> i \<and> i + length symbol < unat (strsize symtab) \<and>
        c_string mem (mh m + unat (stroff symtab) + i) symbol \<and>
        (i = 4 \<or> mem (mh m + unat (stroff symtab) + i - 1) = Some 0)" for i
  proof -
    from that symtab_string_index_finds [of mem m symtab i symbol, OF _ _ _ _ blob]
    obtain j where j: "macho_symtab_string_index mem m symtab symbol = Some (of_nat j)"
      "4 \<le> j" "j \<le> i" by blast
    from j(3) that have "j \<le> unat (strsize symtab)" by simp
    then have "unat (of_nat j :: u32) = j" by (rule le_unat_uoi)
    with j(2) have "(of_nat j :: u32) \<noteq> 0" by (auto simp: unat_eq_0 [symmetric])
    with j(1) s show ?thesis by simp
  qed
  have result: "macho_resolve_symbol mem m symtab symbol want_addr want_size =
      Some (if strx = 0 then (MACHO_NOT_FOUND, None, None)
            else resolve_symbol_spec cs symtab ents strx want_addr want_size)"
  proof (cases "strx = 0")
    case True
    with s show ?thesis by (simp add: macho_resolve_symbol_def)
  next
    case False
    with resolve_symbol_refines [OF tab cmds s False] show ?thesis by simp
  qed
  from s absent stored anchored result show ?thesis by blast
qed

lemma best_inv_skip:
  assumes "best_inv mem m symtab ents a i best" and "\<not> candidate ents a i"
  shows "best_inv mem m symtab ents a (i + 1) best"
  using assms by (auto simp: best_inv_def less_Suc_eq split: option.splits)

lemma best_inv_keep:
  assumes "best_inv mem m symtab ents a i (Some (nl, b, vb))"
    and "\<not> vb < entry_value (ents i)"
  shows "best_inv mem m symtab ents a (i + 1) (Some (nl, b, vb))"
  using assms by (auto simp: best_inv_def less_Suc_eq)

lemma best_inv_take:
  assumes "best_inv mem m symtab ents a i best" and "candidate ents a i"
    and "macho_get_nlist mem m symtab i = Some nl"
    and "case best of None \<Rightarrow> True | Some (sym_nl, symidx, sym_addr) \<Rightarrow> sym_addr < entry_value (ents i)"
  shows "best_inv mem m symtab ents a (i + 1) (Some (nl, i, entry_value (ents i)))"
  using assms by (fastforce simp: best_inv_def less_Suc_eq split: option.splits)

lemma resolve_address_loop_inv:
  assumes tab: "symbol_table mem m symtab ents"
  shows "best_inv mem m symtab ents a i best \<Longrightarrow>
         \<exists>best'. resolve_address_loop mem m symtab a i best = Some best' \<and>
                 best_inv mem m symtab ents a (max i (unat (nsyms symtab))) best'"
proof (induction "unat (nsyms symtab) - i" arbitrary: i best rule: less_induct)
  case less
  show ?case
  proof (cases "i < unat (nsyms symtab)")
    case False
    then have "resolve_address_loop mem m symtab a i best = Some best"
      by (subst resolve_address_loop.simps) simp
    moreover from False have "max i (unat (nsyms symtab)) = i" by simp
    ultimately show ?thesis using less.prems by simp
  next
    case True
    from symbol_table_reads [OF tab True] obtain nl where
      nl: "macho_get_nlist mem m symtab i = Some nl"
        "nlist_n_type mem m nl = Some (entry_type (ents i))"
        "nlist_n_value mem m nl = Some (entry_value (ents i))" by blast
    have m: "unat (nsyms symtab) - (i + 1) < unat (nsyms symtab) - i" using True by simp
    have mx: "max (i + 1) (unat (nsyms symtab)) = max i (unat (nsyms symtab))"
      using True by simp
    let ?take = "(case best of None \<Rightarrow> True
                  | Some (sym_nl, symidx, sym_addr) \<Rightarrow> sym_addr < entry_value (ents i))
                 \<and> entry_value (ents i) \<le> a"
    show ?thesis
    proof (cases "entry_type (ents i) AND N_TYPE = N_SECT")
      case False
      then have "\<not> candidate ents a i" by (simp add: candidate_def)
      from less.hyps [OF m best_inv_skip [OF less.prems this]] True nl False show ?thesis
        by (subst resolve_address_loop.simps) (simp add: mx)
    next
      case sect: True
      show ?thesis
      proof (cases ?take)
        case True
        then have c: "candidate ents a i" using sect by (simp add: candidate_def)
        from True have
          "best_inv mem m symtab ents a (i + 1) (Some (nl, i, entry_value (ents i)))"
          by (intro best_inv_take [OF less.prems c nl(1)]) simp
        from less.hyps [OF m this] \<open>i < unat (nsyms symtab)\<close> nl sect True show ?thesis
          by (subst resolve_address_loop.simps) (simp add: mx)
      next
        case False
        have "best_inv mem m symtab ents a (i + 1) best"
        proof (cases "entry_value (ents i) \<le> a")
          case False
          then have "\<not> candidate ents a i" by (simp add: candidate_def)
          from best_inv_skip [OF less.prems this] show ?thesis .
        next
          case True
          with False obtain snl b vb where
            b: "best = Some (snl, b, vb)" "\<not> vb < entry_value (ents i)"
            by (auto split: option.splits)
          with less.prems best_inv_keep show ?thesis by blast
        qed
        from less.hyps [OF m this] \<open>i < unat (nsyms symtab)\<close> nl sect False show ?thesis
          by (subst resolve_address_loop.simps) (auto simp: mx)
      qed
    qed
  qed
qed

lemma resolve_address_loop_selects:
  assumes tab: "symbol_table mem m symtab ents"
    and k: "k < unat (nsyms symtab)" and c: "candidate ents a k"
    and greatest: "\<forall>j<unat (nsyms symtab). candidate ents a j \<longrightarrow>
                     entry_value (ents j) \<le> entry_value (ents k)"
    and lowest: "\<forall>j<k. candidate ents a j \<longrightarrow> entry_value (ents j) \<noteq> entry_value (ents k)"
  shows "\<exists>nl. resolve_address_loop mem m symtab a 0 None = Some (Some (nl, k, entry_value (ents k)))
              \<and> macho_get_nlist mem m symtab k = Some nl"
proof -
  have "best_inv mem m symtab ents a 0 None" by (simp add: best_inv_def)
  from resolve_address_loop_inv [OF tab this] obtain best' where
    l: "resolve_address_loop mem m symtab a 0 None = Some best'" and
    inv: "best_inv mem m symtab ents a (unat (nsyms symtab)) best'" by auto
  from inv k c obtain nl b vb where b: "best' = Some (nl, b, vb)"
    by (cases best') (auto simp: best_inv_def)
  with inv have b': "b < unat (nsyms symtab)" "candidate ents a b" "vb = entry_value (ents b)"
    "macho_get_nlist mem m symtab b = Some nl"
    "\<forall>j<unat (nsyms symtab). candidate ents a j \<longrightarrow> entry_value (ents j) \<le> vb"
    "\<forall>j<b. candidate ents a j \<longrightarrow> entry_value (ents j) < vb"
    by (auto simp: best_inv_def)
  from b'(5) k c have "entry_value (ents k) \<le> vb" by simp
  moreover from greatest b'(1,2,3) have "vb \<le> entry_value (ents k)" by simp
  ultimately have v: "vb = entry_value (ents k)" by simp
  have "b = k"
  proof (rule ccontr)
    assume "b \<noteq> k"
    then consider "b < k" | "k < b" by linarith
    then show False
    proof cases
      case 1 with lowest b'(2,3) v show False by auto
    next
      case 2 with b'(6) c v show False by auto
    qed
  qed
  with l b b' v show ?thesis by simp
qed

lemma resolve_address_selected:
  assumes tab: "symbol_table mem m symtab ents"
    and k: "k < unat (nsyms symtab)" and c: "candidate ents a k"
    and greatest: "\<forall>j<unat (nsyms symtab). candidate ents a j \<longrightarrow>
                     entry_value (ents j) \<le> entry_value (ents k)"
    and lowest: "\<forall>j<k. candidate ents a j \<longrightarrow> entry_value (ents j) \<noteq> entry_value (ents k)"
  shows "macho_resolve_address mem m symtab a want_name want_size want_offset =
           (if ucast (entry_sect (ents k)) = NO_SECT then Some (MACHO_ERROR, None, None, None)
            else if want_size
              then map_option
                     (\<lambda>g. (MACHO_SUCCESS,
                           if want_name
                           then Some (macho_symtab_string m symtab (entry_strx (ents k)))
                           else None,
                           Some g,
                           if want_offset then Some (a - entry_value (ents k)) else None))
                     (guessed_size mem m symtab (entry_value (ents k)))
              else Some (MACHO_SUCCESS,
                         if want_name
                         then Some (macho_symtab_string m symtab (entry_strx (ents k)))
                         else None,
                         None,
                         if want_offset then Some (a - entry_value (ents k)) else None))"
proof -
  from resolve_address_loop_selects [OF assms] obtain nl where
    l: "resolve_address_loop mem m symtab a 0 None = Some (Some (nl, k, entry_value (ents k)))"
    and nl: "macho_get_nlist mem m symtab k = Some nl" by blast
  from symbol_table_reads [OF tab k] nl have
    r: "nlist_n_sect mem m nl = Some (entry_sect (ents k))"
       "nlist_n_strx mem m nl = Some (entry_strx (ents k))" by auto
  show ?thesis
    by (simp add: macho_resolve_address_def l r guessed_size_def
        Let_def split: Option.bind_splits option.splits)
qed

text \<open>
  C9, as amended. In an image that holds a command table and a readable symbol table:
  when several section-relative entries share the greatest address that is at most the
  queried address, \<^verbatim>\<open>macho_resolve_address\<close> returns, and it selects the one with the lowest
  index \<open>k\<close>: when the section index of entry \<open>k\<close> is \<^verbatim>\<open>NO_SECT\<close> it returns
  \<^verbatim>\<open>MACHO_ERROR\<close> and stores nothing, and otherwise it returns that entry's name,
  guessed size and offset.
\<close>

theorem macho_resolve_address_tie_break:
  assumes tab: "symbol_table mem m symtab ents" and cmds: "image_commands mem m cs"
    and k: "k < unat (nsyms symtab)" and c: "candidate ents a k"
    and greatest: "\<forall>j<unat (nsyms symtab). candidate ents a j \<longrightarrow>
                     entry_value (ents j) \<le> entry_value (ents k)"
    and lowest: "\<forall>j<k. candidate ents a j \<longrightarrow> entry_value (ents j) \<noteq> entry_value (ents k)"
  shows "macho_resolve_address mem m symtab a want_name want_size want_offset =
           Some (if ucast (entry_sect (ents k)) = NO_SECT then (MACHO_ERROR, None, None, None)
                 else resolve_address_outputs cs m symtab ents k a
                        want_name want_size want_offset)"
  by (simp add: resolve_address_selected [OF tab k c greatest lowest]
      guessed_size_described [OF tab cmds] resolve_address_outputs_def)

text \<open>
  C6, as amended. For a section-relative entry \<open>k\<close> whose section index is not \<^verbatim>\<open>NO_SECT\<close>
  and whose address no other entry has, \<^verbatim>\<open>macho_resolve_address\<close> applied to that address
  succeeds (when the size is asked for: provided the size guess returns) and stores the
  entry's name and the offset 0.
\<close>

theorem resolve_address_round_trip:
  assumes tab: "symbol_table mem m symtab ents"
    and k: "k < unat (nsyms symtab)"
    and sect: "entry_type (ents k) AND N_TYPE = N_SECT"
    and alone: "\<forall>j<unat (nsyms symtab). j \<noteq> k \<longrightarrow> entry_value (ents j) \<noteq> entry_value (ents k)"
    and has_sect: "ucast (entry_sect (ents k)) \<noteq> NO_SECT"
  shows "macho_resolve_address mem m symtab (entry_value (ents k)) True False True =
           Some (MACHO_SUCCESS, Some (macho_symtab_string m symtab (entry_strx (ents k))),
                 None, Some 0) \<and>
         macho_resolve_address mem m symtab (entry_value (ents k)) True True True =
           map_option (\<lambda>g. (MACHO_SUCCESS,
                            Some (macho_symtab_string m symtab (entry_strx (ents k))),
                            Some g, Some 0))
             (guessed_size mem m symtab (entry_value (ents k)))"
proof -
  have c: "candidate ents (entry_value (ents k)) k"
    using sect by (simp add: candidate_def)
  have g: "\<forall>j<unat (nsyms symtab). candidate ents (entry_value (ents k)) j \<longrightarrow>
             entry_value (ents j) \<le> entry_value (ents k)"
    by (simp add: candidate_def)
  have l: "\<forall>j<k. candidate ents (entry_value (ents k)) j \<longrightarrow>
             entry_value (ents j) \<noteq> entry_value (ents k)"
    using alone k by auto
  show ?thesis
    using has_sect
    by (simp add: resolve_address_selected [OF tab k c g l])
qed

section \<open>Properties of the iteration over symbols\<close>

lemma callback_args_step:
  "i < unat (nsyms symtab) \<Longrightarrow>
   callback_args m symtab ents i =
     (if visible_symbol symtab (ents i)
      then [(macho_symtab_string m symtab (entry_strx (ents i)), entry_value (ents i))]
      else []) @ callback_args m symtab ents (i + 1)"
  by (simp add: callback_args_def upt_conv_Cons)

lemma callback_args_end:
  "\<not> i < unat (nsyms symtab) \<Longrightarrow> callback_args m symtab ents i = []"
  by (simp add: callback_args_def)

lemma symtab_string_None_iff:
  "(macho_symtab_string m symtab strx = None) = (\<not> (4 \<le> strx \<and> strx < strsize symtab))"
  by (auto simp: macho_symtab_string_def Let_def)

lemma symtab_string_in_blob:
  "macho_symtab_string m symtab strx = Some p \<Longrightarrow> in_blob m symtab p"
  by (auto simp: macho_symtab_string_def Let_def in_blob_def word_less_nat_alt word_le_nat_alt
      split: if_splits)

lemma for_each_symbol_loop_stopped:
  "for_each_symbol_loop mem m symtab callback i True ctx = Some ctx"
  by (subst for_each_symbol_loop.simps) simp

lemma for_each_symbol_loop_runs:
  assumes tab: "symbol_table mem m symtab ents"
  shows "for_each_symbol_loop mem m symtab callback i False ctx =
           Some (run_callbacks callback (callback_args m symtab ents i) ctx)"
proof (induction "unat (nsyms symtab) - i" arbitrary: i ctx rule: less_induct)
  case less
  show ?case
  proof (cases "i < unat (nsyms symtab)")
    case False
    then show ?thesis
      by (subst for_each_symbol_loop.simps) (simp add: callback_args_end)
  next
    case True
    from symbol_table_reads [OF tab True] obtain nl where
      nl: "macho_get_nlist mem m symtab i = Some nl"
        "nlist_n_strx mem m nl = Some (entry_strx (ents i))"
        "nlist_n_type mem m nl = Some (entry_type (ents i))"
        "nlist_n_value mem m nl = Some (entry_value (ents i))" by blast
    have m: "unat (nsyms symtab) - (i + 1) < unat (nsyms symtab) - i" using True by simp
    note ih = less.hyps [OF m]
    show ?thesis
    proof (cases "visible_symbol symtab (ents i)")
      case False
      have "for_each_symbol_loop mem m symtab callback i False ctx =
              for_each_symbol_loop mem m symtab callback (i + 1) False ctx"
      proof (cases "entry_type (ents i) AND N_STAB \<noteq> 0 \<or>
                    entry_type (ents i) AND N_TYPE \<noteq> N_SECT")
        case True
        with \<open>i < unat (nsyms symtab)\<close> nl show ?thesis
          by (subst for_each_symbol_loop.simps) simp
      next
        case ok: False
        with False have "macho_symtab_string m symtab (entry_strx (ents i)) = None"
          by (simp add: visible_symbol_def symtab_string_None_iff)
        with \<open>i < unat (nsyms symtab)\<close> nl ok show ?thesis
          by (subst for_each_symbol_loop.simps) (simp add: Let_def)
      qed
      with False \<open>i < unat (nsyms symtab)\<close> ih [of ctx] show ?thesis
        by (simp add: callback_args_step)
    next
      case True
      then have "macho_symtab_string m symtab (entry_strx (ents i)) \<noteq> None"
        by (simp add: visible_symbol_def symtab_string_None_iff)
      then obtain p where s: "macho_symtab_string m symtab (entry_strx (ents i)) = Some p"
        by auto
      obtain stop ctx' where
        cb: "callback ctx (macho_symtab_string m symtab (entry_strx (ents i)))
               (entry_value (ents i)) = (stop, ctx')"
        by (cases "callback ctx (macho_symtab_string m symtab (entry_strx (ents i)))
               (entry_value (ents i))")
      from True have t: "\<not> (entry_type (ents i) AND N_STAB \<noteq> 0 \<or>
                             entry_type (ents i) AND N_TYPE \<noteq> N_SECT)"
        by (simp add: visible_symbol_def)
      have "for_each_symbol_loop mem m symtab callback i False ctx =
              for_each_symbol_loop mem m symtab callback (i + 1) stop ctx'"
        using \<open>i < unat (nsyms symtab)\<close> nl s t cb
        by (subst for_each_symbol_loop.simps) (simp add: Let_def)
      also have "\<dots> = Some (if stop then ctx'
                            else run_callbacks callback (callback_args m symtab ents (i + 1)) ctx')"
        using ih [of ctx'] by (cases stop) (simp_all add: for_each_symbol_loop_stopped)
      finally show ?thesis
        using True \<open>i < unat (nsyms symtab)\<close> cb by (simp add: callback_args_step)
    qed
  qed
qed

text \<open>
  C10. For a readable symbol table, \<^verbatim>\<open>macho_for_each_symbol\<close> runs the callback on exactly
  the entries that are not debug entries, are section-relative and have a string index of
  at least 4 and below the blob length, in order and until the callback asks to stop; all
  other entries are skipped. The name of every such invocation is not \<^verbatim>\<open>NULL\<close> and points
  into the string blob.
\<close>

theorem for_each_symbol_names:
  assumes tab: "symbol_table mem m symtab ents"
  shows "macho_for_each_symbol mem m symtab callback ctx =
           Some (run_callbacks callback (callback_args m symtab ents 0) ctx) \<and>
         (\<forall>(name, address) \<in> set (callback_args m symtab ents 0).
            \<exists>p. name = Some p \<and> in_blob m symtab p)"
proof
  show "macho_for_each_symbol mem m symtab callback ctx =
          Some (run_callbacks callback (callback_args m symtab ents 0) ctx)"
    by (simp add: macho_for_each_symbol_def for_each_symbol_loop_runs [OF tab])
  show "\<forall>(name, address) \<in> set (callback_args m symtab ents 0).
          \<exists>p. name = Some p \<and> in_blob m symtab p"
  proof (clarify)
    fix name address
    assume "(name, address) \<in> set (callback_args m symtab ents 0)"
    then obtain j where "visible_symbol symtab (ents j)"
      and n: "name = macho_symtab_string m symtab (entry_strx (ents j))"
      by (auto simp: callback_args_def)
    then have "name \<noteq> None"
      by (simp add: visible_symbol_def symtab_string_None_iff)
    then obtain p where p: "name = Some p" by auto
    with n have "macho_symtab_string m symtab (entry_strx (ents j)) = Some p" by simp
    then have "in_blob m symtab p" by (rule symtab_string_in_blob)
    with p show "\<exists>p. name = Some p \<and> in_blob m symtab p" by simp
  qed
qed

section \<open>Properties of the pattern search\<close>

lemma search_data_loop_success:
  assumes run: "search_data_loop mem m pat minprot lc = Some y"
  shows "y = (MACHO_SUCCESS, Some a) \<longrightarrow>
   (case lc of None \<Rightarrow> True | Some q \<Rightarrow> image_segment mem m q) \<longrightarrow>
   (\<exists>p initprot. image_segment mem m p \<and> segment_initprot mem m p = Some initprot \<and>
           includes_prot initprot minprot \<and> match_in_segment mem m pat p a)"
proof (rule search_data_loop.raw_induct [OF _ run], intro impI)
  fix loop mem m pat minprot lc y
  assume ih: "\<And>mem m pat minprot lc y. loop mem m pat minprot lc = Some y \<Longrightarrow>
      y = (MACHO_SUCCESS, Some a) \<longrightarrow>
      (case lc of None \<Rightarrow> True | Some q \<Rightarrow> image_segment mem m q) \<longrightarrow>
      (\<exists>p initprot. image_segment mem m p \<and> segment_initprot mem m p = Some initprot \<and>
           includes_prot initprot minprot \<and> match_in_segment mem m pat p a)"
  assume body: "macho_next_segment mem m lc \<bind>
       (\<lambda>lc'. case lc' of
          None \<Rightarrow> Some (MACHO_NOT_FOUND, None)
        | Some p \<Rightarrow>
            segment_initprot mem m p \<bind>
            (\<lambda>initprot.
               if initprot AND minprot \<noteq> minprot then loop mem m pat minprot (Some p)
               else segment_fileoff mem m p \<bind>
                    (\<lambda>fileoff.
                       segment_filesize mem m p \<bind>
                       (\<lambda>filesize.
                          let base = mh m + unat fileoff
                          in memmem mem base (unat filesize) pat \<bind>
                             (\<lambda>found.
                                case found of
                                  None \<Rightarrow> loop mem m pat minprot (Some p)
                                | Some f \<Rightarrow>
                                    let offset = f - base
                                    in segment_vmaddr mem m p \<bind>
                                       (\<lambda>vmaddr.
                                          Some (MACHO_SUCCESS, Some (vmaddr + of_nat offset)))))))) =
       Some y"
  assume y: "y = (MACHO_SUCCESS, Some a)"
  assume start: "case lc of None \<Rightarrow> True | Some q \<Rightarrow> image_segment mem m q"
  from body y obtain p where nx: "macho_next_segment mem m lc = Some (Some p)"
    by (auto split: Option.bind_splits option.splits)
  with start have seg: "image_segment mem m p"
    by (cases lc) (auto intro: image_segment.intros)
  from body nx obtain initprot where ip: "segment_initprot mem m p = Some initprot"
    by (auto split: Option.bind_splits)
  show "\<exists>p initprot. image_segment mem m p \<and> segment_initprot mem m p = Some initprot \<and>
           includes_prot initprot minprot \<and> match_in_segment mem m pat p a"
  proof (cases "initprot AND minprot \<noteq> minprot")
    case True
    with body nx ip have "loop mem m pat minprot (Some p) = Some y" by simp
    from ih [OF this] y seg show ?thesis by simp
  next
    case False
    with body nx ip obtain fileoff filesize found where
      f: "segment_fileoff mem m p = Some fileoff" "segment_filesize mem m p = Some filesize"
         "memmem mem (mh m + unat fileoff) (unat filesize) pat = Some found"
      by (auto simp: Let_def split: Option.bind_splits)
    show ?thesis
    proof (cases found)
      case None
      with body nx ip False f have "loop mem m pat minprot (Some p) = Some y"
        by (simp add: Let_def)
      from ih [OF this] y seg show ?thesis by simp
    next
      case (Some fp)
      with body nx ip False f y obtain vmaddr where
        v: "segment_vmaddr mem m p = Some vmaddr"
           "a = vmaddr + of_nat (fp - (mh m + unat fileoff))"
        by (auto simp: Let_def split: Option.bind_splits)
      from f(3) Some obtain hay k where
        h: "rd_bytes mem (mh m + unat fileoff) (unat filesize) = Some hay" "pat \<noteq> []"
           "first_occurrence pat hay = Some k" "fp = mh m + unat fileoff + k"
        by (auto simp: memmem_def split: Option.bind_splits if_splits)
      have "match_in_segment mem m pat p a"
        using f v h by (simp add: match_in_segment_def)
      with seg ip False show ?thesis by (auto simp: includes_prot_def)
    qed
  qed
qed

lemma first_occurrence_less: "first_occurrence needle hay = Some k \<Longrightarrow> k < length hay"
  by (induction hay arbitrary: k) (auto split: if_splits)

lemma those_length: "those xs = Some ys \<Longrightarrow> length ys = length xs"
  by (induction xs arbitrary: ys) (auto split: option.splits)

lemma rd_bytes_length: "rd_bytes mem a n = Some bs \<Longrightarrow> length bs = n"
  by (auto simp: rd_bytes_def dest: those_length)

lemma match_in_segment_inside:
  assumes mt: "match_in_segment mem m pat p a" and seg: "image_segment mem m p"
    and fw: "file_within_vm mem m"
  shows "in_segment mem m p a"
proof -
  from fw seg have fit: "fits_address_range mem m p"
    by (simp add: file_within_vm_def)
  then obtain vmsize where vs: "segment_vmsize mem m p = Some vmsize"
    by (auto simp: fits_address_range_def split: option.splits)
  from mt obtain fileoff where fo: "segment_fileoff mem m p = Some fileoff"
    by (cases "segment_fileoff mem m p") (simp_all add: match_in_segment_def)
  from mt fo obtain filesize where fs: "segment_filesize mem m p = Some filesize"
    by (cases "segment_filesize mem m p") (simp_all add: match_in_segment_def)
  from mt fo fs obtain vmaddr where va: "segment_vmaddr mem m p = Some vmaddr"
    by (cases "segment_vmaddr mem m p") (simp_all add: match_in_segment_def)
  from mt fo fs va obtain hay where
    hay: "rd_bytes mem (mh m + unat fileoff) (unat filesize) = Some hay"
    by (cases "rd_bytes mem (mh m + unat fileoff) (unat filesize)")
      (simp_all add: match_in_segment_def)
  from mt fo fs va hay obtain k where k0: "first_occurrence pat hay = Some k"
    by (cases "first_occurrence pat hay") (simp_all add: match_in_segment_def)
  from mt fo fs va hay k0 have ak: "a = vmaddr + of_nat k"
    by (simp add: match_in_segment_def)
  note f = fs va hay k0 ak
  from first_occurrence_less [OF f(4)] rd_bytes_length [OF f(3)]
  have k: "k < unat filesize" by simp
  from fit f(1,2) vs have w: "unat filesize \<le> unat vmsize"
    "unat vmaddr + unat vmsize < 2 ^ 64"
    by (simp_all add: fits_address_range_def)
  have uk: "unat (of_nat k :: u64) = k"
    using k by (intro le_unat_uoi [of _ filesize]) simp
  have ua: "unat a = unat vmaddr + k"
    using k w uk unfolding f(5) by (simp add: unat_word_ariths)
  have uv: "unat (vmaddr + vmsize) = unat vmaddr + unat vmsize"
    using w by (simp add: unat_word_ariths)
  show ?thesis
    using ua uv k w
    by (simp add: in_segment_def f(2) vs word_le_nat_alt word_less_nat_alt)
qed

text \<open>
  C8, as amended. A successful \<^verbatim>\<open>macho_search_data\<close> returns an address computed from a
  match in the file bytes of a segment of the image whose initial protection includes
  every bit of the required protection; a segment whose initial protection misses a
  required bit is skipped, the search continuing after it without looking at its bytes.
  When the required protection includes execute permission, no address lies inside two
  segments and the file bytes of every segment fit into its address range, every segment
  that the returned address lies inside may be executed.
\<close>

theorem search_data_protection:
  assumes "macho_search_data mem m pat minprot = Some (MACHO_SUCCESS, Some a)"
  shows "(\<exists>p initprot. image_segment mem m p \<and> segment_initprot mem m p = Some initprot \<and>
            includes_prot initprot minprot \<and> match_in_segment mem m pat p a) \<and>
         (\<forall>lc q prot. macho_next_segment mem m lc = Some (Some q) \<and>
            segment_initprot mem m q = Some prot \<and> \<not> includes_prot prot minprot \<longrightarrow>
            search_data_loop mem m pat minprot lc = search_data_loop mem m pat minprot (Some q)) \<and>
         (includes_prot minprot VM_PROT_EXECUTE \<and> segments_disjoint mem m \<and>
          file_within_vm mem m \<longrightarrow>
            (\<forall>q. image_segment mem m q \<and> in_segment mem m q a \<longrightarrow>
                 segment_executable mem m q))"
proof (intro conjI)
  from assms search_data_loop_success [of mem m pat minprot None _ a]
  obtain p initprot where p: "image_segment mem m p" "segment_initprot mem m p = Some initprot"
    "includes_prot initprot minprot" "match_in_segment mem m pat p a"
    by (auto simp: macho_search_data_def)
  then show "\<exists>p initprot. image_segment mem m p \<and> segment_initprot mem m p = Some initprot \<and>
            includes_prot initprot minprot \<and> match_in_segment mem m pat p a" by blast
  show "\<forall>lc q prot. macho_next_segment mem m lc = Some (Some q) \<and>
            segment_initprot mem m q = Some prot \<and> \<not> includes_prot prot minprot \<longrightarrow>
            search_data_loop mem m pat minprot lc = search_data_loop mem m pat minprot (Some q)"
    by (intro allI impI, subst search_data_loop.simps) (simp add: includes_prot_def)
  show "includes_prot minprot VM_PROT_EXECUTE \<and> segments_disjoint mem m \<and>
          file_within_vm mem m \<longrightarrow>
            (\<forall>q. image_segment mem m q \<and> in_segment mem m q a \<longrightarrow>
                 segment_executable mem m q)"
  proof (intro impI allI)
    fix q
    assume w: "includes_prot minprot VM_PROT_EXECUTE \<and> segments_disjoint mem m \<and>
          file_within_vm mem m"
    assume q: "image_segment mem m q \<and> in_segment mem m q a"
    have x: "initprot AND VM_PROT_EXECUTE = VM_PROT_EXECUTE"
      using w p(3) unfolding includes_prot_def by (metis and.assoc)
    from match_in_segment_inside [OF p(4) p(1)] w have "in_segment mem m p a" by simp
    with w q p(1) have "q = p" unfolding segments_disjoint_def by blast
    with p(2) x show "segment_executable mem m q" by (simp add: segment_executable_def)
  qed
qed

section \<open>Evaluation on concrete images\<close>

lemma rd32_load_at:
  "base \<le> a \<Longrightarrow> a - base + 3 < length bs \<Longrightarrow>
   rd32 (load_at base bs) a =
     Some (le32 (bs ! (a - base)) (bs ! (a - base + 1)) (bs ! (a - base + 2)) (bs ! (a - base + 3)))"
proof -
  assume "base \<le> a" and l: "a - base + 3 < length bs"
  then obtain i where a: "a = base + i" by (auto simp: le_iff_add)
  with l have "i + 3 < length bs" by simp
  then show ?thesis
    unfolding a by (simp add: rd32_def load_at_def add.assoc)
qed

lemma rd8_load_at:
  "base \<le> a \<Longrightarrow> a - base < length bs \<Longrightarrow> rd8 (load_at base bs) a = Some (bs ! (a - base))"
  by (simp add: rd8_def load_at_def)

lemma is_64_of_magic:
  "rd32 mem (mh m) = Some magic \<Longrightarrow> macho_is_64 mem m = Some (magic = MH_MAGIC_64)"
  by (simp add: macho_is_64_def)

lemma fields_32:
  assumes "macho_is_64 mem m = Some False"
  shows "field_u32 mem m obj off64 off32 = rd32 mem (obj + off32)"
    and "field_long mem m obj off64 off32 = map_option ucast (rd32 mem (obj + off32))"
    and "field_u8 mem m obj off64 off32 = rd8 mem (obj + off32)"
    and "MACHO_STRUCT_SIZE mem m size64 size32 = Some size32"
  using assms
  by (simp_all add: field_u32_def field_long_def field_u8_def MACHO_STRUCT_SIZE_def
      map_option_case split: option.splits Option.bind_splits)

lemma fields_64:
  assumes "macho_is_64 mem m = Some True"
  shows "field_u32 mem m obj off64 off32 = rd32 mem (obj + off64)"
    and "field_long mem m obj off64 off32 = rd64 mem (obj + off64)"
    and "field_u8 mem m obj off64 off32 = rd8 mem (obj + off64)"
    and "MACHO_STRUCT_SIZE mem m size64 size32 = Some size64"
  using assms
  by (simp_all add: field_u32_def field_long_def field_u8_def MACHO_STRUCT_SIZE_def)

lemma find_load_command_end:
  "macho_next_load_command mem m lc = Some None \<Longrightarrow>
   macho_find_load_command mem m lc cmd = Some None"
  by (subst macho_find_load_command.simps) simp

lemma find_load_command_hit:
  "macho_next_load_command mem m lc = Some (Some p) \<Longrightarrow> lc_cmd mem p = Some cmd \<Longrightarrow>
   macho_find_load_command mem m lc cmd = Some (Some p)"
  by (subst macho_find_load_command.simps) simp

lemma find_load_command_skip:
  "macho_next_load_command mem m lc = Some (Some p) \<Longrightarrow> lc_cmd mem p = Some c \<Longrightarrow>
   c \<noteq> cmd \<Longrightarrow>
   macho_find_load_command mem m lc cmd = macho_find_load_command mem m (Some p) cmd"
  by (subst macho_find_load_command.simps) simp

lemma segment_containing_address_end:
  "macho_next_segment mem m lc = Some None \<Longrightarrow>
   segment_containing_address_loop mem m lc a = Some None"
  by (subst segment_containing_address_loop.simps) simp

lemma segment_containing_address_step:
  "macho_next_segment mem m lc = Some (Some p) \<Longrightarrow>
   segment_vmaddr mem m p = Some vmaddr \<Longrightarrow> segment_vmsize mem m p = Some vmsize \<Longrightarrow>
   segment_containing_address_loop mem m lc a =
     (if vmaddr \<le> a \<and> a < vmaddr + vmsize then Some (Some p)
      else segment_containing_address_loop mem m (Some p) a)"
  by (subst segment_containing_address_loop.simps) simp

lemma search_data_loop_end:
  "macho_next_segment mem m lc = Some None \<Longrightarrow>
   search_data_loop mem m pat minprot lc = Some (MACHO_NOT_FOUND, None)"
  by (subst search_data_loop.simps) simp

lemma search_data_loop_skip:
  "macho_next_segment mem m lc = Some (Some p) \<Longrightarrow> segment_initprot mem m p = Some prot \<Longrightarrow>
   prot AND minprot \<noteq> minprot \<Longrightarrow>
   search_data_loop mem m pat minprot lc = search_data_loop mem m pat minprot (Some p)"
  by (subst search_data_loop.simps) simp

lemma search_data_loop_hit:
  "macho_next_segment mem m lc = Some (Some p) \<Longrightarrow> segment_initprot mem m p = Some prot \<Longrightarrow>
   prot AND minprot = minprot \<Longrightarrow>
   segment_fileoff mem m p = Some fileoff \<Longrightarrow> segment_filesize mem m p = Some filesize \<Longrightarrow>
   memmem mem (mh m + unat fileoff) (unat filesize) pat = Some (Some f) \<Longrightarrow>
   segment_vmaddr mem m p = Some vmaddr \<Longrightarrow>
   search_data_loop mem m pat minprot lc =
     Some (MACHO_SUCCESS, Some (vmaddr + of_nat (f - (mh m + unat fileoff))))"
  by (subst search_data_loop.simps) (simp add: Let_def)

lemma those_map_Some: "those (map Some xs) = Some xs"
  by (induction xs) simp_all

lemma rd_bytes_load_at:
  assumes "n \<le> length bs"
  shows "rd_bytes (load_at base bs) base n = Some (take n bs)"
proof -
  have "map (\<lambda>i. load_at base bs (base + i)) [0..<n] = map Some (take n bs)"
    using assms by (auto simp: load_at_def list_eq_iff_nth_eq)
  then show ?thesis by (simp add: rd_bytes_def those_map_Some)
qed

lemma image_macho_sel: "mh (image_macho sz) = 4096" "msize (image_macho sz) = sz"
  by (simp_all add: image_macho_def)

lemma scenario_length: "length (image_scenario s0 s1) = 198"
  by (simp add: image_scenario_def)

lemma scenario_rd32:
  "rd32 (load_at 4096 (image_scenario s0 s1)) 4096 = Some MH_MAGIC"
  "rd32 (load_at 4096 (image_scenario s0 s1)) 4116 = Some 124"
  "rd32 (load_at 4096 (image_scenario s0 s1)) 4124 = Some 1"
  "rd32 (load_at 4096 (image_scenario s0 s1)) 4128 = Some 124"
  "rd32 (load_at 4096 (image_scenario s0 s1)) 4148 = Some 0x1000"
  "rd32 (load_at 4096 (image_scenario s0 s1)) 4152 = Some 0x2000"
  "rd32 (load_at 4096 (image_scenario s0 s1)) 4156 = Some 0"
  "rd32 (load_at 4096 (image_scenario s0 s1)) 4160 = Some 40"
  "rd32 (load_at 4096 (image_scenario s0 s1)) 4168 = Some 5"
  "rd32 (load_at 4096 (image_scenario s0 s1)) 4172 = Some 1"
  "rd32 (load_at 4096 (image_scenario s0 s1)) 4212 = Some 0x1000"
  "rd32 (load_at 4096 (image_scenario s0 s1)) 4216 = Some (le32 s0 s1 0 0)"
  "rd32 (load_at 4096 (image_scenario s0 s1)) 4248 = Some 4"
  "rd32 (load_at 4096 (image_scenario s0 s1)) 4256 = Some 0x1000"
  "rd32 (load_at 4096 (image_scenario s0 s1)) 4260 = Some 7"
  "rd32 (load_at 4096 (image_scenario s0 s1)) 4268 = Some 0x1050"
  "rd32 (load_at 4096 (image_scenario s0 s1)) 4272 = Some 2"
  "rd32 (load_at 4096 (image_scenario s0 s1)) 4280 = Some 0x1050"
  by (simp_all add: rd32_load_at scenario_length)
    (simp_all add: image_scenario_def le32_def MH_MAGIC_def)

lemma scenario_rd8:
  "rd8 (load_at 4096 (image_scenario s0 s1)) 4252 = Some 0x0e"
  "rd8 (load_at 4096 (image_scenario s0 s1)) 4253 = Some 1"
  "rd8 (load_at 4096 (image_scenario s0 s1)) 4264 = Some 0x0f"
  "rd8 (load_at 4096 (image_scenario s0 s1)) 4265 = Some 1"
  "rd8 (load_at 4096 (image_scenario s0 s1)) 4276 = Some 0x0e"
  "rd8 (load_at 4096 (image_scenario s0 s1)) 4277 = Some 1"
  by (simp_all add: rd8_load_at scenario_length) (simp_all add: image_scenario_def)

lemma section_loop_end:
  "\<not> i < unat nsects \<Longrightarrow>
   section_containing_address_loop mem m nsects sect_size a i sect = Some None"
  by (subst section_containing_address_loop.simps) simp

lemma section_loop_step:
  "i < unat nsects \<Longrightarrow> section_addr mem m sect = Some sa \<Longrightarrow>
   section_size mem m sect = Some ss \<Longrightarrow>
   section_containing_address_loop mem m nsects sect_size a i sect =
     (if sa \<le> a \<and> a < sa + ss then Some (Some sect)
      else section_containing_address_loop mem m nsects sect_size a (i + 1) (sect + sect_size))"
  by (subst section_containing_address_loop.simps) simp

lemma next_segment_32:
  "macho_is_64 mem m = Some False \<Longrightarrow>
   macho_next_segment mem m sc = macho_find_load_command mem m sc LC_SEGMENT"
  by (simp add: macho_next_segment_def)

lemma next_segment_64:
  "macho_is_64 mem m = Some True \<Longrightarrow>
   macho_next_segment mem m sc = macho_find_load_command mem m sc LC_SEGMENT_64"
  by (simp add: macho_next_segment_def)

subsection \<open>The image \<open>image_scenario\<close>\<close>

lemma scenario_is_64:
  "macho_is_64 (load_at 4096 (image_scenario s0 s1)) (image_macho sz) = Some False"
  by (simp add: is_64_of_magic [where magic = MH_MAGIC] image_macho_sel scenario_rd32
      MH_MAGIC_def MH_MAGIC_64_def)

lemmas scenario_fields = fields_32 [OF scenario_is_64]

lemma scenario_header:
  "macho_header_size (load_at 4096 (image_scenario s0 s1)) (image_macho sz) = Some 28"
  "header_sizeofcmds (load_at 4096 (image_scenario s0 s1)) (image_macho sz) = Some 124"
  "lc_cmd (load_at 4096 (image_scenario s0 s1)) 4124 = Some LC_SEGMENT"
  "lc_cmdsize (load_at 4096 (image_scenario s0 s1)) 4124 = Some 124"
  by (simp_all add: macho_header_size_def header_sizeofcmds_def lc_cmd_def lc_cmdsize_def
      scenario_fields image_macho_sel scenario_rd32 LC_SEGMENT_def)

lemma scenario_segment:
  "segment_vmaddr (load_at 4096 (image_scenario s0 s1)) (image_macho sz) 4124 = Some 0x1000"
  "segment_vmsize (load_at 4096 (image_scenario s0 s1)) (image_macho sz) 4124 = Some 0x2000"
  "segment_fileoff (load_at 4096 (image_scenario s0 s1)) (image_macho sz) 4124 = Some 0"
  "segment_filesize (load_at 4096 (image_scenario s0 s1)) (image_macho sz) 4124 = Some 40"
  "segment_initprot (load_at 4096 (image_scenario s0 s1)) (image_macho sz) 4124 = Some 5"
  "segment_nsects (load_at 4096 (image_scenario s0 s1)) (image_macho sz) 4124 = Some 1"
  "section_addr (load_at 4096 (image_scenario s0 s1)) (image_macho sz) 4180 = Some 0x1000"
  "section_size (load_at 4096 (image_scenario s0 s1)) (image_macho sz) 4180
     = Some (ucast (le32 s0 s1 0 0))"
  by (simp_all add: segment_vmaddr_def segment_vmsize_def segment_fileoff_def
      segment_filesize_def segment_initprot_def segment_nsects_def section_addr_def
      section_size_def scenario_fields scenario_rd32)

lemma scenario_next_load_command:
  "macho_next_load_command (load_at 4096 (image_scenario s0 s1)) (image_macho sz) None
     = Some (Some 4124)"
  "macho_next_load_command (load_at 4096 (image_scenario s0 s1)) (image_macho sz) (Some 4124)
     = Some None"
  by (simp_all add: next_load_command_None [OF scenario_header(1,2)]
      next_load_command_Some [OF scenario_header(1,2,4)] image_macho_sel)

lemma scenario_next_segment:
  "macho_next_segment (load_at 4096 (image_scenario s0 s1)) (image_macho sz) None
     = Some (Some 4124)"
  "macho_next_segment (load_at 4096 (image_scenario s0 s1)) (image_macho sz) (Some 4124)
     = Some None"
  by (simp_all add: next_segment_32 [OF scenario_is_64]
      find_load_command_hit [OF scenario_next_load_command(1) scenario_header(3)]
      find_load_command_end [OF scenario_next_load_command(2)])

lemma scenario_segment_containing:
  "macho_segment_containing_address (load_at 4096 (image_scenario s0 s1)) (image_macho sz) a
     = Some (if 0x1000 \<le> a \<and> a < 0x3000 then Some 4124 else None)"
  by (simp add: macho_segment_containing_address_def
      segment_containing_address_step [OF scenario_next_segment(1) scenario_segment(1,2)]
      segment_containing_address_end [OF scenario_next_segment(2)])

lemma scenario_section_containing:
  "macho_section_containing_address (load_at 4096 (image_scenario s0 s1)) (image_macho sz) 4124 a
     = Some (if 0x1000 \<le> a \<and> a < 0x1000 + ucast (le32 s0 s1 0 0) then Some 4180 else None)"
  by (simp add: macho_section_containing_address_def scenario_segment scenario_fields
      section_loop_step [OF _ scenario_segment(7,8)] section_loop_end)

lemma scenario_commands:
  "image_commands (load_at 4096 (image_scenario s0 s1)) (image_macho sz)
     (commands_scenario s0 s1)"
  by (simp add: image_commands_def commands_scenario_def scenario_is_64 scenario_header
      scenario_segment segment_cmd_def image_macho_sel)

lemma scenario_symbol_table:
  "symbol_table (load_at 4096 (image_scenario s0 s1)) (image_macho sz) symtab_scenario
     entries_scenario"
proof -
  have n: "unat (nsyms symtab_scenario) = 3" by (simp add: symtab_scenario_def)
  have "sym_entry (load_at 4096 (image_scenario s0 s1)) (image_macho sz) symtab_scenario j
          = Some (entries_scenario j)" if "j = 0 \<or> j = 1 \<or> j = 2" for j
    using that
    by (auto simp: sym_entry_def macho_get_nlist_def nlist_n_strx_def nlist_n_type_def
        nlist_n_sect_def nlist_n_value_def scenario_fields image_macho_sel symtab_scenario_def
        scenario_rd32 scenario_rd8 entries_scenario_def)
  moreover have "j = 0 \<or> j = 1 \<or> j = 2" if "j < 3" for j :: nat
    using that by linarith
  ultimately show ?thesis by (simp add: symbol_table_def n)
qed

lemma scenario_next_symbol:
  "macho_next_symbol (load_at 4096 (image_scenario s0 s1)) (image_macho sz) symtab_scenario 0x1000
     = Some 0x1050"
  "macho_next_symbol (load_at 4096 (image_scenario s0 s1)) (image_macho sz) symtab_scenario 0x1050
     = Some (- 1)"
proof -
  have n: "[0..<unat (nsyms symtab_scenario)] = [0, 1, 2]"
    by (simp add: symtab_scenario_def upt_conv_Cons)
  show "macho_next_symbol (load_at 4096 (image_scenario s0 s1)) (image_macho sz)
          symtab_scenario 0x1000 = Some 0x1050"
    by (simp add: macho_next_symbol_def next_symbol_loop_fold [OF scenario_symbol_table] n
        entries_scenario_def)
  show "macho_next_symbol (load_at 4096 (image_scenario s0 s1)) (image_macho sz)
          symtab_scenario 0x1050 = Some (- 1)"
    by (simp add: macho_next_symbol_def next_symbol_loop_fold [OF scenario_symbol_table] n
        entries_scenario_def)
qed

lemma readable_load_at_range:
  "base \<le> a \<Longrightarrow> a + n \<le> base + length bs \<Longrightarrow> readable (load_at base bs) a n"
  by (auto simp: readable_def load_at_def)

lemma scenario_applicable_bounds:
  "applicable_bounds (commands_scenario s0 s1) a next =
     next_symbol_bound a next @
       (if 0x1000 \<le> a \<and> a < 0x3000
        then (if 0x1000 \<le> a \<and> a < 0x1000 + ucast (le32 s0 s1 0 0)
              then [0x1000 + ucast (le32 s0 s1 0 0) - a] else []) @ [0x3000 - a]
        else [])"
  by (simp add: applicable_bounds_def structural_bounds_def commands_scenario_def
      containing_section_def address_in_def)

lemma scenario_guess:
  "guess_symbol_size (load_at 4096 (image_scenario 0 1)) (image_macho sz) 0x1000 0x1050 = Some 0x50"
  "guess_symbol_size (load_at 4096 (image_scenario 0 1)) (image_macho sz) 0x1050 (- 1) = Some 0xb0"
  "guess_symbol_size (load_at 4096 (image_scenario 0 1)) (image_macho sz) 0x1040 (- 1) = Some 0xc0"
  by (simp_all add: guess_symbol_size_described [OF scenario_commands]
      scenario_applicable_bounds next_symbol_bound_def least_bound_sentinel_def le32_def)

text \<open>
  The amended C4 at the image \<open>image_scenario\<close>: for the address \<open>0x1000\<close> and the next
  symbol \<open>0x1050\<close> the three bounds apply, and the least one is returned.
\<close>

theorem guess_symbol_size_least_bound_witness:
  "image_commands (load_at 4096 (image_scenario 0 1)) (image_macho 198) (commands_scenario 0 1) \<and>
   applicable_bounds (commands_scenario 0 1) 0x1000 0x1050 = [0x50, 0x100, 0x2000] \<and>
   least_bound (applicable_bounds (commands_scenario 0 1) 0x1000 0x1050) = 0x50 \<and>
   guess_symbol_size (load_at 4096 (image_scenario 0 1)) (image_macho 198) 0x1000 0x1050
     = Some 0x50"
proof -
  have b: "applicable_bounds (commands_scenario 0 1) 0x1000 0x1050 = [0x50, 0x100, 0x2000]"
    by (simp add: scenario_applicable_bounds next_symbol_bound_def le32_def)
  have l: "least_bound [0x50, 0x100, 0x2000 :: u64] = 0x50"
    by (simp add: least_bound_def)
  from guess_symbol_size_least_bound [OF scenario_commands, of 0 1 198 "0x1000" "0x1050"]
    scenario_commands [of 0 1 198] b l
  show ?thesis by (simp add: least_bound_sentinel_def)
qed

text \<open>
  The amended C5 at the image \<open>image_scenario\<close>, for the address \<open>0x1040\<close>: the size
  \<open>0xc0\<close> without a next symbol does not grow with the next symbol \<open>0x1050\<close>, nor when
  the section shrinks from \<open>0x100\<close> to \<open>0x80\<close> bytes.
\<close>

theorem guess_symbol_size_monotone_witness:
  "guess_symbol_size (load_at 4096 (image_scenario 0 1)) (image_macho 198) 0x1040 (- 1)
     = Some 0xc0 \<and>
   (\<exists>r'. guess_symbol_size (load_at 4096 (image_scenario 0 1)) (image_macho 198) 0x1040 0x1050
           = Some r' \<and> r' \<le> 0xc0) \<and>
   (\<exists>r'. guess_symbol_size (load_at 4096 (image_scenario 0x80 0)) (image_macho 198) 0x1040 (- 1)
           = Some r' \<and> r' \<le> 0xc0)"
proof -
  have r: "guess_symbol_size (load_at 4096 (image_scenario 0 1)) (image_macho 198) 0x1040 (- 1)
             = Some 0xc0" by (rule scenario_guess)
  have nz: "(0xc0 :: u64) \<noteq> 0" by simp
  note mono = guess_symbol_size_monotone [OF r nz, where next' = "0x1050" and scp = 4124
      and va = "0x1000" and vs = "0x2000" and sp = 4180 and sa = "0x1000" and ss = "0x100"
      and mem' = "load_at 4096 (image_scenario 0x80 0)" and m' = "image_macho 198"
      and scp' = 4124 and sp' = 4180 and sa' = "0x1000" and ss' = "0x80"]
  have h1: "(0x1040 :: u64) < 0x1050 \<and> (0x1050 :: u64) \<le> - 1" by simp
  have h2: "macho_segment_containing_address (load_at 4096 (image_scenario 0 1)) (image_macho 198)
              0x1040 = Some (Some 4124) \<and>
            segment_vmaddr (load_at 4096 (image_scenario 0 1)) (image_macho 198) 4124 = Some 0x1000 \<and>
            segment_vmsize (load_at 4096 (image_scenario 0 1)) (image_macho 198) 4124 = Some 0x2000 \<and>
            macho_section_containing_address (load_at 4096 (image_scenario 0 1)) (image_macho 198)
              4124 0x1040 = Some (Some 4180) \<and>
            section_addr (load_at 4096 (image_scenario 0 1)) (image_macho 198) 4180 = Some 0x1000 \<and>
            section_size (load_at 4096 (image_scenario 0 1)) (image_macho 198) 4180 = Some 0x100 \<and>
            macho_segment_containing_address (load_at 4096 (image_scenario 0x80 0)) (image_macho 198)
              0x1040 = Some (Some 4124) \<and>
            segment_vmaddr (load_at 4096 (image_scenario 0x80 0)) (image_macho 198) 4124 = Some 0x1000 \<and>
            segment_vmsize (load_at 4096 (image_scenario 0x80 0)) (image_macho 198) 4124 = Some 0x2000 \<and>
            macho_section_containing_address (load_at 4096 (image_scenario 0x80 0)) (image_macho 198)
              4124 0x1040 = Some (Some 4180) \<and>
            section_addr (load_at 4096 (image_scenario 0x80 0)) (image_macho 198) 4180 = Some 0x1000 \<and>
            section_size (load_at 4096 (image_scenario 0x80 0)) (image_macho 198) 4180 = Some 0x80 \<and>
            (0x1000 :: u64) + 0x80 \<le> 0x1000 + 0x100"
    by (simp add: scenario_segment_containing scenario_section_containing scenario_segment
        le32_def)
  from mono h1 h2 r show ?thesis by blast
qed

lemma scenario_upt: "[0..<unat (nsyms symtab_scenario)] = [0, 1, 2]"
  by (simp add: symtab_scenario_def upt_conv_Cons)

lemma scenario_c_string:
  "c_string (load_at 4096 (image_scenario s0 s1)) 4288 [0x5f, 0x61]"
  by (simp add: c_string_def load_at_def scenario_length less_Suc_eq all_conj_distrib)
    (simp add: image_scenario_def)

lemma scenario_string_index:
  "macho_symtab_string_index (load_at 4096 (image_scenario s0 s1)) (image_macho sz)
     symtab_scenario [0x5f, 0x61] = Some 4"
proof -
  have "\<exists>j. macho_symtab_string_index (load_at 4096 (image_scenario s0 s1)) (image_macho sz)
             symtab_scenario [0x5f, 0x61] = Some (of_nat j) \<and> 4 \<le> j \<and> j \<le> 4 \<and>
           c_string (load_at 4096 (image_scenario s0 s1))
             (mh (image_macho sz) + unat (stroff symtab_scenario) + j) [0x5f, 0x61]"
    by (rule symtab_string_index_finds)
      (simp_all add: image_macho_sel symtab_scenario_def scenario_c_string
        readable_load_at_range scenario_length)
  then obtain j where "macho_symtab_string_index (load_at 4096 (image_scenario s0 s1))
      (image_macho sz) symtab_scenario [0x5f, 0x61] = Some (of_nat j)" "j = 4" by auto
  then show ?thesis by simp
qed

lemma scenario_guessed_size:
  "guessed_size (load_at 4096 (image_scenario 0 1)) (image_macho sz) symtab_scenario 0x1000
     = Some 0x50"
  "guessed_size (load_at 4096 (image_scenario 0 1)) (image_macho sz) symtab_scenario 0x1050
     = Some 0xb0"
  by (simp_all add: guessed_size_def scenario_next_symbol scenario_guess)

lemma scenario_size_guess:
  "size_guess (commands_scenario 0 1) symtab_scenario entries_scenario 0x1000 = 0x50"
  "size_guess (commands_scenario 0 1) symtab_scenario entries_scenario 0x1050 = 0xb0"
  using guessed_size_described [OF scenario_symbol_table scenario_commands, of 0 1]
    scenario_guessed_size
  by simp_all

lemma scenario_string:
  "macho_symtab_string (image_macho sz) symtab_scenario 4 = Some 4288"
  "macho_symtab_string (image_macho sz) symtab_scenario 7 = Some 4291"
  "macho_symtab_string (image_macho sz) symtab_scenario 2 = None"
  by (simp_all add: macho_symtab_string_def symtab_scenario_def image_macho_sel)

lemma scenario_candidate:
  "candidate entries_scenario a j = (entry_value (entries_scenario j) \<le> a)"
  by (simp add: candidate_def entries_scenario_def N_TYPE_def N_SECT_def)

text \<open>
  The amended C9 at the image \<open>image_scenario\<close>: entries 1 and 2 share the address
  \<open>0x1050\<close>, the greatest one that is at most \<open>0x1060\<close>, and the result is that of entry
  1, whose name \<^verbatim>\<open>_b\<close> is at index 7 of the string blob.
\<close>

theorem macho_resolve_address_tie_break_witness:
  "symbol_table (load_at 4096 (image_scenario 0 1)) (image_macho 198) symtab_scenario
     entries_scenario \<and>
   image_commands (load_at 4096 (image_scenario 0 1)) (image_macho 198) (commands_scenario 0 1) \<and>
   entry_value (entries_scenario 1) = entry_value (entries_scenario 2) \<and>
   macho_resolve_address (load_at 4096 (image_scenario 0 1)) (image_macho 198) symtab_scenario
     0x1060 True True True = Some (MACHO_SUCCESS, Some (Some 4291), Some 0xb0, Some 0x10)"
proof -
  have k: "1 < unat (nsyms symtab_scenario)" by (simp add: symtab_scenario_def)
  have c: "candidate entries_scenario 0x1060 1"
    by (simp add: scenario_candidate) (simp add: entries_scenario_def)
  have g: "\<forall>j<unat (nsyms symtab_scenario). candidate entries_scenario 0x1060 j \<longrightarrow>
             entry_value (entries_scenario j) \<le> entry_value (entries_scenario 1)"
    by (simp add: entries_scenario_def)
  have l: "\<forall>j<1. candidate entries_scenario 0x1060 j \<longrightarrow>
             entry_value (entries_scenario j) \<noteq> entry_value (entries_scenario 1)"
    by (simp add: entries_scenario_def)
  have "macho_resolve_address (load_at 4096 (image_scenario 0 1)) (image_macho 198)
      symtab_scenario 0x1060 True True True =
    Some (MACHO_SUCCESS, Some (Some 4291), Some 0xb0, Some 0x10)"
    by (simp add: macho_resolve_address_tie_break
          [OF scenario_symbol_table scenario_commands k c g l] resolve_address_outputs_def)
      (simp add: entries_scenario_def NO_SECT_def scenario_size_guess scenario_string)
  then show ?thesis
    using scenario_symbol_table scenario_commands by (simp add: entries_scenario_def)
qed

text \<open>
  The amended C6 at the image \<open>image_scenario\<close>: entry 0 is the only one at \<open>0x1000\<close>, and
  resolving that address gives its name \<^verbatim>\<open>_a\<close> and the offset 0.
\<close>

theorem resolve_address_round_trip_witness:
  "symbol_table (load_at 4096 (image_scenario 0 1)) (image_macho 198) symtab_scenario
     entries_scenario \<and>
   macho_resolve_address (load_at 4096 (image_scenario 0 1)) (image_macho 198) symtab_scenario
     0x1000 True False True = Some (MACHO_SUCCESS, Some (Some 4288), None, Some 0) \<and>
   c_string (load_at 4096 (image_scenario 0 1)) 4288 [0x5f, 0x61]"
proof -
  have k: "0 < unat (nsyms symtab_scenario)" by (simp add: symtab_scenario_def)
  have s: "entry_type (entries_scenario 0) AND N_TYPE = N_SECT"
    by (simp add: entries_scenario_def N_TYPE_def N_SECT_def)
  have a: "\<forall>j<unat (nsyms symtab_scenario). j \<noteq> 0 \<longrightarrow>
             entry_value (entries_scenario j) \<noteq> entry_value (entries_scenario 0)"
    by (simp add: entries_scenario_def)
  have h: "ucast (entry_sect (entries_scenario 0)) \<noteq> NO_SECT"
    by (simp add: entries_scenario_def NO_SECT_def)
  from resolve_address_round_trip [OF scenario_symbol_table k s a h, of 0 1 198]
  have "macho_resolve_address (load_at 4096 (image_scenario 0 1)) (image_macho 198)
      symtab_scenario 0x1000 True False True =
    Some (MACHO_SUCCESS, Some (Some 4288), None, Some 0)"
    by (simp add: entries_scenario_def scenario_string)
  with scenario_symbol_table scenario_c_string show ?thesis by simp
qed

text \<open>
  C10 at the image \<open>image_scenario\<close>, with a callback that appends its arguments to the
  context and never stops: entries 0 and 1 are passed with pointers to their names, entry 2
  (string index 2) is skipped.
\<close>

theorem for_each_symbol_names_witness:
  "symbol_table (load_at 4096 (image_scenario 0 1)) (image_macho 198) symtab_scenario
     entries_scenario \<and>
   macho_for_each_symbol (load_at 4096 (image_scenario 0 1)) (image_macho 198) symtab_scenario
     (\<lambda>ctx name address. (False, ctx @ [(name, address)])) []
     = Some [(Some 4288, 0x1000), (Some 4291, 0x1050)]"
proof -
  have "callback_args (image_macho 198) symtab_scenario entries_scenario 0 =
          [(Some 4288, 0x1000), (Some 4291, 0x1050)]"
    by (simp add: callback_args_def scenario_upt visible_symbol_def entries_scenario_def
        N_STAB_def N_TYPE_def N_SECT_def scenario_string)
      (simp add: symtab_scenario_def)
  with for_each_symbol_names [OF scenario_symbol_table, of 0 1 198
      "\<lambda>ctx name address. (False, ctx @ [(name, address)])" "[]"]
    scenario_symbol_table
  show ?thesis by simp
qed

lemma scenario_memmem:
  "memmem (load_at 4096 (image_scenario s0 s1)) 4096 40 [0xed, 0xfe] = Some (Some 4098)"
  by (simp add: memmem_def rd_bytes_load_at scenario_length)
    (simp add: image_scenario_def)

lemma scenario_image_segment:
  "image_segment (load_at 4096 (image_scenario s0 s1)) (image_macho sz) p \<Longrightarrow> p = 4124"
  by (induction rule: image_segment.induct) (simp_all add: scenario_next_segment)

lemma scenario_layout:
  "segments_disjoint (load_at 4096 (image_scenario s0 s1)) (image_macho sz)"
  "file_within_vm (load_at 4096 (image_scenario s0 s1)) (image_macho sz)"
  by (auto simp: segments_disjoint_def file_within_vm_def fits_address_range_def
      scenario_segment dest!: scenario_image_segment)

subsection \<open>The image \<open>image_whole_space\<close>\<close>

lemma whole_space_length: "length image_whole_space = 104"
  by (simp add: image_whole_space_def)

lemma whole_space_rd32:
  "rd32 (load_at 4096 image_whole_space) 4096 = Some MH_MAGIC_64"
  "rd32 (load_at 4096 image_whole_space) 4116 = Some 72"
  "rd32 (load_at 4096 image_whole_space) 4128 = Some 0x19"
  "rd32 (load_at 4096 image_whole_space) 4132 = Some 72"
  "rd32 (load_at 4096 image_whole_space) 4192 = Some 0"
  by (simp_all add: rd32_load_at whole_space_length)
    (simp_all add: image_whole_space_def le32_def MH_MAGIC_64_def)

lemma whole_space_rd64:
  "rd64 (load_at 4096 image_whole_space) 4152 = Some 0"
  "rd64 (load_at 4096 image_whole_space) 4160 = Some (- 1)"
  by (simp_all add: rd64_def rd32_load_at whole_space_length)
    (simp_all add: image_whole_space_def le32_def)

lemma whole_space_is_64:
  "macho_is_64 (load_at 4096 image_whole_space) (image_macho sz) = Some True"
  by (simp add: is_64_of_magic [where magic = MH_MAGIC_64] image_macho_sel whole_space_rd32)

lemmas whole_space_fields = fields_64 [OF whole_space_is_64]

lemma whole_space_header:
  "macho_header_size (load_at 4096 image_whole_space) (image_macho sz) = Some 32"
  "header_sizeofcmds (load_at 4096 image_whole_space) (image_macho sz) = Some 72"
  "lc_cmd (load_at 4096 image_whole_space) 4128 = Some LC_SEGMENT_64"
  "lc_cmdsize (load_at 4096 image_whole_space) 4128 = Some 72"
  by (simp_all add: macho_header_size_def header_sizeofcmds_def lc_cmd_def lc_cmdsize_def
      whole_space_fields image_macho_sel whole_space_rd32 LC_SEGMENT_64_def)

lemma whole_space_segment:
  "segment_vmaddr (load_at 4096 image_whole_space) (image_macho sz) 4128 = Some 0"
  "segment_vmsize (load_at 4096 image_whole_space) (image_macho sz) 4128 = Some (- 1)"
  "segment_nsects (load_at 4096 image_whole_space) (image_macho sz) 4128 = Some 0"
  by (simp_all add: segment_vmaddr_def segment_vmsize_def segment_nsects_def
      whole_space_fields whole_space_rd32 whole_space_rd64)

lemma whole_space_next_segment:
  "macho_next_segment (load_at 4096 image_whole_space) (image_macho sz) None = Some (Some 4128)"
  "macho_next_segment (load_at 4096 image_whole_space) (image_macho sz) (Some 4128) = Some None"
proof -
  have a: "macho_next_load_command (load_at 4096 image_whole_space) (image_macho sz) None
             = Some (Some 4128)"
    by (simp add: next_load_command_None [OF whole_space_header(1,2)] image_macho_sel)
  have b: "macho_next_load_command (load_at 4096 image_whole_space) (image_macho sz) (Some 4128)
             = Some None"
    by (simp add: next_load_command_Some [OF whole_space_header(1,2,4)] image_macho_sel)
  show "macho_next_segment (load_at 4096 image_whole_space) (image_macho sz) None
          = Some (Some 4128)"
    by (simp add: next_segment_64 [OF whole_space_is_64]
        find_load_command_hit [OF a whole_space_header(3)])
  show "macho_next_segment (load_at 4096 image_whole_space) (image_macho sz) (Some 4128)
          = Some None"
    by (simp add: next_segment_64 [OF whole_space_is_64] find_load_command_end [OF b])
qed

lemma zero_less_minus_one: "(0 :: u64) < - 1"
  by (simp add: word_gt_0)

lemma whole_space_commands:
  "image_commands (load_at 4096 image_whole_space) (image_macho sz) commands_whole_space"
  by (simp add: image_commands_def commands_whole_space_def whole_space_is_64
      whole_space_header whole_space_segment segment_cmd_def image_macho_sel)

lemma whole_space_bounds:
  "applicable_bounds commands_whole_space 0 (- 1) = [- 1]"
  by (simp add: applicable_bounds_def structural_bounds_def commands_whole_space_def
      next_symbol_bound_def containing_section_def address_in_def zero_less_minus_one)

lemma whole_space_guess:
  "guess_symbol_size (load_at 4096 image_whole_space) (image_macho sz) 0 (- 1) = Some 0"
proof -
  have "macho_segment_containing_address (load_at 4096 image_whole_space) (image_macho sz) 0
          = Some (Some 4128)"
    by (simp add: macho_segment_containing_address_def zero_less_minus_one
        segment_containing_address_step [OF whole_space_next_segment(1) whole_space_segment(1,2)])
  moreover have "macho_section_containing_address (load_at 4096 image_whole_space)
      (image_macho sz) 4128 0 = Some None"
    by (simp add: macho_section_containing_address_def whole_space_segment whole_space_fields
        section_loop_end)
  ultimately show ?thesis
    by (simp add: guess_symbol_size_segment [OF _ _ whole_space_segment(1,2)]
        next_symbol_bound_def least_bound_sentinel_def)
qed

text \<open>
  C4, as stated, fails: in the image \<open>image_whole_space\<close> the segment contains the address
  0 and ends \<open>2 ^ 64 - 1\<close> bytes after it, no other bound applies, and the size returned
  is 0.
\<close>

theorem least_bound_counterexample:
  "image_commands (load_at 4096 image_whole_space) (image_macho 104) commands_whole_space \<and>
   applicable_bounds commands_whole_space 0 (- 1) = [- 1] \<and>
   least_bound (applicable_bounds commands_whole_space 0 (- 1)) = - 1 \<and>
   guess_symbol_size (load_at 4096 image_whole_space) (image_macho 104) 0 (- 1) = Some 0"
  by (simp add: whole_space_commands whole_space_bounds whole_space_guess least_bound_def)

subsection \<open>The image \<open>image_one_symbol\<close>\<close>

lemma one_symbol_length: "length image_one_symbol = 47"
  by (simp add: image_one_symbol_def)

lemma one_symbol_rd32:
  "rd32 (load_at 4096 image_one_symbol) 4096 = Some MH_MAGIC"
  "rd32 (load_at 4096 image_one_symbol) 4116 = Some 0"
  "rd32 (load_at 4096 image_one_symbol) 4124 = Some 4"
  "rd32 (load_at 4096 image_one_symbol) 4132 = Some 0x1000"
  by (simp_all add: rd32_load_at one_symbol_length)
    (simp_all add: image_one_symbol_def le32_def MH_MAGIC_def)

lemma one_symbol_rd8:
  "rd8 (load_at 4096 image_one_symbol) 4128 = Some 0x0e"
  "rd8 (load_at 4096 image_one_symbol) 4129 = Some 0"
  "rd8 (load_at 4096 image_one_symbol) 4140 = Some 0x5f"
  "rd8 (load_at 4096 image_one_symbol) 4141 = Some 0x61"
  "rd8 (load_at 4096 image_one_symbol) 4142 = Some 0"
  by (simp_all add: rd8_load_at one_symbol_length) (simp_all add: image_one_symbol_def)

lemma one_symbol_is_64:
  "macho_is_64 (load_at 4096 image_one_symbol) (image_macho sz) = Some False"
  by (simp add: is_64_of_magic [where magic = MH_MAGIC] image_macho_sel one_symbol_rd32
      MH_MAGIC_def MH_MAGIC_64_def)

lemmas one_symbol_fields = fields_32 [OF one_symbol_is_64]

lemma one_symbol_header:
  "macho_header_size (load_at 4096 image_one_symbol) (image_macho sz) = Some 28"
  "header_sizeofcmds (load_at 4096 image_one_symbol) (image_macho sz) = Some 0"
  by (simp_all add: macho_header_size_def header_sizeofcmds_def one_symbol_fields
      image_macho_sel one_symbol_rd32)

lemma one_symbol_commands:
  "image_commands (load_at 4096 image_one_symbol) (image_macho sz) []"
  by (simp add: image_commands_def one_symbol_is_64 one_symbol_header)

lemma one_symbol_no_segment:
  "macho_segment_containing_address (load_at 4096 image_one_symbol) (image_macho sz) a
     = Some None"
proof -
  have "macho_next_load_command (load_at 4096 image_one_symbol) (image_macho sz) None = Some None"
    by (simp add: next_load_command_None [OF one_symbol_header])
  then have "macho_next_segment (load_at 4096 image_one_symbol) (image_macho sz) None = Some None"
    by (simp add: next_segment_32 [OF one_symbol_is_64] find_load_command_end)
  then show ?thesis
    by (simp add: macho_segment_containing_address_def segment_containing_address_end)
qed

text \<open>
  C5, as stated, fails: the image \<open>image_one_symbol\<close> has no segment, so that the size
  guessed for \<open>0x1000\<close> is 0 without a next symbol and \<open>0x10\<close> with the next symbol
  \<open>0x1010\<close>.
\<close>

theorem closer_next_counterexample:
  "(0x1000 :: u64) < 0x1010 \<and> (0x1010 :: u64) \<le> - 1 \<and>
   guess_symbol_size (load_at 4096 image_one_symbol) (image_macho 47) 0x1000 (- 1) = Some 0 \<and>
   guess_symbol_size (load_at 4096 image_one_symbol) (image_macho 47) 0x1000 0x1010 = Some 0x10 \<and>
   \<not> (0x10 :: u64) \<le> 0"
  by (simp add: guess_symbol_size_no_segment [OF one_symbol_no_segment] next_symbol_bound_def
      least_bound_sentinel_def)

lemma one_symbol_table:
  "symbol_table (load_at 4096 image_one_symbol) (image_macho sz) symtab_one_symbol
     entries_one_symbol"
  by (simp add: symbol_table_def symtab_one_symbol_def sym_entry_def macho_get_nlist_def
      nlist_n_strx_def nlist_n_type_def nlist_n_sect_def nlist_n_value_def one_symbol_fields
      image_macho_sel one_symbol_rd32 one_symbol_rd8 entries_one_symbol_def)

text \<open>
  C6, as stated, fails: the only entry of the image \<open>image_one_symbol\<close> is
  section-relative by its type and has the section index \<^verbatim>\<open>NO_SECT\<close>; resolving its address
  is an error.
\<close>

theorem round_trip_counterexample:
  "symbol_table (load_at 4096 image_one_symbol) (image_macho 47) symtab_one_symbol
     entries_one_symbol \<and>
   unat (nsyms symtab_one_symbol) = 1 \<and>
   entry_type (entries_one_symbol 0) AND N_TYPE = N_SECT \<and>
   macho_resolve_address (load_at 4096 image_one_symbol) (image_macho 47) symtab_one_symbol
     (entry_value (entries_one_symbol 0)) True False True = Some (MACHO_ERROR, None, None, None)"
proof -
  have k: "0 < unat (nsyms symtab_one_symbol)" by (simp add: symtab_one_symbol_def)
  have c: "candidate entries_one_symbol (entry_value (entries_one_symbol 0)) 0"
    by (simp add: candidate_def entries_one_symbol_def N_TYPE_def N_SECT_def)
  have "macho_resolve_address (load_at 4096 image_one_symbol) (image_macho 47) symtab_one_symbol
      (entry_value (entries_one_symbol 0)) True False True = Some (MACHO_ERROR, None, None, None)"
    by (subst resolve_address_selected [OF one_symbol_table k c])
      (simp_all add: entries_one_symbol_def NO_SECT_def)
  with one_symbol_table show ?thesis
    by (simp add: symtab_one_symbol_def entries_one_symbol_def N_TYPE_def N_SECT_def)
qed

lemma one_symbol_c_string:
  "c_string (load_at 4096 image_one_symbol) 4140 [0x5f, 0x61]"
  "c_string (load_at 4096 image_one_symbol) 4141 [0x61]"
  using one_symbol_rd8 by (simp_all add: c_string_def rd8_def less_Suc_eq all_conj_distrib)

lemma one_symbol_string_index:
  "macho_symtab_string_index (load_at 4096 image_one_symbol) (image_macho sz) symtab_one_symbol
     [0x61] = Some 0"
proof -
  have s2: "skip_to_nul (load_at 4096 image_one_symbol) 4143 4142 = Some 4142"
    by (subst skip_to_nul.simps) (simp add: one_symbol_rd8)
  have s1: "skip_to_nul (load_at 4096 image_one_symbol) 4143 4141 = Some 4142"
    by (subst skip_to_nul.simps) (simp add: one_symbol_rd8 s2)
  have s0: "skip_to_nul (load_at 4096 image_one_symbol) 4143 4140 = Some 4142"
    by (subst skip_to_nul.simps) (simp add: one_symbol_rd8 s1)
  have e: "string_index_loop (load_at 4096 image_one_symbol) [0x61] 4136 4143 strx 0 4143 = Some 0"
    for strx
    by (subst string_index_loop.simps) simp
  have "string_index_loop (load_at 4096 image_one_symbol) [0x61] 4136 4143 4 0 4140 = Some 0"
    by (subst string_index_loop.simps) (simp add: one_symbol_rd8 name_at_def s0 e)
  then show ?thesis
    by (simp add: macho_symtab_string_index_def symtab_one_symbol_def image_macho_sel)
qed

text \<open>
  C7, as stated, fails: in the string blob of the image \<open>image_one_symbol\<close> the name \<^verbatim>\<open>a\<close>
  is stored with its terminator at the valid index 5, inside the entry \<^verbatim>\<open>_a\<close>; the scan
  returns 0 for it, and index 0 has no string.
\<close>

theorem string_round_trip_counterexample:
  "c_string (load_at 4096 image_one_symbol)
     (mh (image_macho 47) + unat (stroff symtab_one_symbol) + 5) [0x61] \<and>
   (4 :: nat) \<le> 5 \<and> 5 < unat (strsize symtab_one_symbol) \<and>
   \<not> string_round_trip (load_at 4096 image_one_symbol) (image_macho 47) symtab_one_symbol [0x61]"
proof -
  have "macho_symtab_string (image_macho 47) symtab_one_symbol 0 = None"
    by (simp add: macho_symtab_string_def)
  then have "\<not> string_round_trip (load_at 4096 image_one_symbol) (image_macho 47)
      symtab_one_symbol [0x61]"
    by (simp add: string_round_trip_def one_symbol_string_index)
  with one_symbol_c_string(2) show ?thesis
    by (simp add: image_macho_sel symtab_one_symbol_def)
qed

text \<open>The amended C7 at the same image, for the name \<^verbatim>\<open>_a\<close> at index 4.\<close>

theorem string_index_round_trip_witness:
  "c_string (load_at 4096 image_one_symbol)
     (mh (image_macho 47) + unat (stroff symtab_one_symbol) + 4) [0x5f, 0x61] \<and>
   readable (load_at 4096 image_one_symbol)
     (mh (image_macho 47) + unat (stroff symtab_one_symbol) + 4)
     (unat (strsize symtab_one_symbol) - 4) \<and>
   string_round_trip (load_at 4096 image_one_symbol) (image_macho 47) symtab_one_symbol
     [0x5f, 0x61]"
proof -
  have c: "c_string (load_at 4096 image_one_symbol)
      (mh (image_macho 47) + unat (stroff symtab_one_symbol) + 4) [0x5f, 0x61]"
    using one_symbol_c_string(1) by (simp add: image_macho_sel symtab_one_symbol_def)
  have i: "(4 :: nat) \<le> 4" "4 + length [0x5f, 0x61 :: byte] < unat (strsize symtab_one_symbol)"
    by (simp_all add: symtab_one_symbol_def)
  have st: "(4 :: nat) = 4 \<or> load_at 4096 image_one_symbol
      (mh (image_macho 47) + unat (stroff symtab_one_symbol) + 4 - 1) = Some 0" by simp
  have r: "readable (load_at 4096 image_one_symbol)
      (mh (image_macho 47) + unat (stroff symtab_one_symbol) + 4)
      (unat (strsize symtab_one_symbol) - 4)"
    by (rule readable_load_at_range)
      (simp_all add: image_macho_sel symtab_one_symbol_def one_symbol_length)
  from string_index_round_trip [OF c i st r] c r show ?thesis by simp
qed

subsection \<open>The image \<open>image_overlap\<close>\<close>

lemma overlap_length: "length image_overlap = 140"
  by (simp add: image_overlap_def)

lemma overlap_rd32:
  "rd32 (load_at 4096 image_overlap) 4096 = Some MH_MAGIC"
  "rd32 (load_at 4096 image_overlap) 4116 = Some 112"
  "rd32 (load_at 4096 image_overlap) 4124 = Some 1"
  "rd32 (load_at 4096 image_overlap) 4128 = Some 56"
  "rd32 (load_at 4096 image_overlap) 4148 = Some 0x1000"
  "rd32 (load_at 4096 image_overlap) 4152 = Some 0x1000"
  "rd32 (load_at 4096 image_overlap) 4168 = Some 3"
  "rd32 (load_at 4096 image_overlap) 4180 = Some 1"
  "rd32 (load_at 4096 image_overlap) 4184 = Some 56"
  "rd32 (load_at 4096 image_overlap) 4204 = Some 0x1000"
  "rd32 (load_at 4096 image_overlap) 4212 = Some 0"
  "rd32 (load_at 4096 image_overlap) 4216 = Some 16"
  "rd32 (load_at 4096 image_overlap) 4224 = Some 5"
  by (simp_all add: rd32_load_at overlap_length)
    (simp_all add: image_overlap_def le32_def MH_MAGIC_def)

lemma overlap_is_64:
  "macho_is_64 (load_at 4096 image_overlap) (image_macho sz) = Some False"
  by (simp add: is_64_of_magic [where magic = MH_MAGIC] image_macho_sel overlap_rd32
      MH_MAGIC_def MH_MAGIC_64_def)

lemmas overlap_fields = fields_32 [OF overlap_is_64]

lemma overlap_header:
  "macho_header_size (load_at 4096 image_overlap) (image_macho sz) = Some 28"
  "header_sizeofcmds (load_at 4096 image_overlap) (image_macho sz) = Some 112"
  "lc_cmd (load_at 4096 image_overlap) 4124 = Some LC_SEGMENT"
  "lc_cmdsize (load_at 4096 image_overlap) 4124 = Some 56"
  "lc_cmd (load_at 4096 image_overlap) 4180 = Some LC_SEGMENT"
  "lc_cmdsize (load_at 4096 image_overlap) 4180 = Some 56"
  by (simp_all add: macho_header_size_def header_sizeofcmds_def lc_cmd_def lc_cmdsize_def
      overlap_fields image_macho_sel overlap_rd32 LC_SEGMENT_def)

lemma overlap_segments:
  "segment_vmaddr (load_at 4096 image_overlap) (image_macho sz) 4124 = Some 0x1000"
  "segment_vmsize (load_at 4096 image_overlap) (image_macho sz) 4124 = Some 0x1000"
  "segment_initprot (load_at 4096 image_overlap) (image_macho sz) 4124 = Some 3"
  "segment_vmaddr (load_at 4096 image_overlap) (image_macho sz) 4180 = Some 0x1000"
  "segment_fileoff (load_at 4096 image_overlap) (image_macho sz) 4180 = Some 0"
  "segment_filesize (load_at 4096 image_overlap) (image_macho sz) 4180 = Some 16"
  "segment_initprot (load_at 4096 image_overlap) (image_macho sz) 4180 = Some 5"
  by (simp_all add: segment_vmaddr_def segment_vmsize_def segment_fileoff_def
      segment_filesize_def segment_initprot_def overlap_fields overlap_rd32)

lemma overlap_next_segment:
  "macho_next_segment (load_at 4096 image_overlap) (image_macho sz) None = Some (Some 4124)"
  "macho_next_segment (load_at 4096 image_overlap) (image_macho sz) (Some 4124)
     = Some (Some 4180)"
proof -
  have a: "macho_next_load_command (load_at 4096 image_overlap) (image_macho sz) None
             = Some (Some 4124)"
    by (simp add: next_load_command_None [OF overlap_header(1,2)] image_macho_sel)
  have b: "macho_next_load_command (load_at 4096 image_overlap) (image_macho sz) (Some 4124)
             = Some (Some 4180)"
    by (simp add: next_load_command_Some [OF overlap_header(1,2,4)] image_macho_sel)
  show "macho_next_segment (load_at 4096 image_overlap) (image_macho sz) None
          = Some (Some 4124)"
    by (simp add: next_segment_32 [OF overlap_is_64]
        find_load_command_hit [OF a overlap_header(3)])
  show "macho_next_segment (load_at 4096 image_overlap) (image_macho sz) (Some 4124)
          = Some (Some 4180)"
    by (simp add: next_segment_32 [OF overlap_is_64]
        find_load_command_hit [OF b overlap_header(5)])
qed

lemma overlap_memmem:
  "memmem (load_at 4096 image_overlap) 4096 16 [0xed, 0xfe] = Some (Some 4098)"
  by (simp add: memmem_def rd_bytes_load_at overlap_length) (simp add: image_overlap_def)

lemma overlap_search:
  "macho_search_data (load_at 4096 image_overlap) (image_macho 140) [0xed, 0xfe] 5
     = Some (MACHO_SUCCESS, Some 0x1002)"
proof -
  have "search_data_loop (load_at 4096 image_overlap) (image_macho 140) [0xed, 0xfe] 5
      (Some 4124) = Some (MACHO_SUCCESS,
        Some (0x1000 + of_nat (4098 - (mh (image_macho 140) + unat (0 :: u64)))))"
    by (rule search_data_loop_hit [OF overlap_next_segment(2) overlap_segments(7) _
          overlap_segments(5,6) _ overlap_segments(4)])
      (simp_all add: image_macho_sel overlap_memmem)
  moreover have "search_data_loop (load_at 4096 image_overlap) (image_macho 140) [0xed, 0xfe] 5
      None = search_data_loop (load_at 4096 image_overlap) (image_macho 140) [0xed, 0xfe] 5
      (Some 4124)"
    by (rule search_data_loop_skip [OF overlap_next_segment(1) overlap_segments(3)]) simp
  ultimately show ?thesis by (simp add: macho_search_data_def image_macho_sel)
qed

text \<open>
  C8, as stated, fails: in the image \<open>image_overlap\<close> the search for the bytes \<open>ed fe\<close>
  with the required protection read and execute returns the address \<open>0x1002\<close>, found in the
  second segment; that address lies inside the first segment, which
  \<^verbatim>\<open>macho_segment_containing_address\<close> returns for it and which may not be executed.
\<close>

theorem search_data_counterexample:
  "includes_prot 5 VM_PROT_EXECUTE \<and>
   macho_search_data (load_at 4096 image_overlap) (image_macho 140) [0xed, 0xfe] 5
     = Some (MACHO_SUCCESS, Some 0x1002) \<and>
   macho_segment_containing_address (load_at 4096 image_overlap) (image_macho 140) 0x1002
     = Some (Some 4124) \<and>
   image_segment (load_at 4096 image_overlap) (image_macho 140) 4124 \<and>
   segment_initprot (load_at 4096 image_overlap) (image_macho 140) 4124 = Some 3 \<and>
   \<not> includes_prot 3 VM_PROT_EXECUTE"
proof -
  have "macho_segment_containing_address (load_at 4096 image_overlap) (image_macho 140) 0x1002
          = Some (Some 4124)"
    by (simp add: macho_segment_containing_address_def
        segment_containing_address_step [OF overlap_next_segment(1) overlap_segments(1,2)])
  moreover have "image_segment (load_at 4096 image_overlap) (image_macho 140) 4124"
    by (rule image_segment.first_segment) (rule overlap_next_segment)
  ultimately show ?thesis
    by (simp add: overlap_search overlap_segments includes_prot_def VM_PROT_EXECUTE_def)
qed

subsection \<open>The image \<open>image_tie\<close>\<close>

lemma tie_length: "length image_tie = 59"
  by (simp add: image_tie_def)

lemma tie_rd32:
  "rd32 (load_at 4096 image_tie) 4096 = Some MH_MAGIC"
  "rd32 (load_at 4096 image_tie) 4116 = Some 0"
  "rd32 (load_at 4096 image_tie) 4124 = Some 4"
  "rd32 (load_at 4096 image_tie) 4132 = Some 0x1000"
  "rd32 (load_at 4096 image_tie) 4136 = Some 4"
  "rd32 (load_at 4096 image_tie) 4144 = Some 0x1000"
  by (simp_all add: rd32_load_at tie_length)
    (simp_all add: image_tie_def le32_def MH_MAGIC_def)

lemma tie_rd8:
  "rd8 (load_at 4096 image_tie) 4128 = Some 0x0e"
  "rd8 (load_at 4096 image_tie) 4129 = Some 0"
  "rd8 (load_at 4096 image_tie) 4140 = Some 0x0e"
  "rd8 (load_at 4096 image_tie) 4141 = Some 1"
  by (simp_all add: rd8_load_at tie_length) (simp_all add: image_tie_def)

lemma tie_is_64:
  "macho_is_64 (load_at 4096 image_tie) (image_macho sz) = Some False"
  by (simp add: is_64_of_magic [where magic = MH_MAGIC] image_macho_sel tie_rd32
      MH_MAGIC_def MH_MAGIC_64_def)

lemmas tie_fields = fields_32 [OF tie_is_64]

lemma tie_commands:
  "image_commands (load_at 4096 image_tie) (image_macho sz) []"
  by (simp add: image_commands_def tie_is_64 header_sizeofcmds_def tie_fields tie_rd32
      image_macho_sel)

lemma tie_table:
  "symbol_table (load_at 4096 image_tie) (image_macho sz) symtab_tie entries_tie"
proof -
  have n: "unat (nsyms symtab_tie) = 2" by (simp add: symtab_tie_def)
  have "sym_entry (load_at 4096 image_tie) (image_macho sz) symtab_tie j = Some (entries_tie j)"
    if "j = 0 \<or> j = 1" for j
    using that
    by (auto simp: sym_entry_def macho_get_nlist_def nlist_n_strx_def nlist_n_type_def
        nlist_n_sect_def nlist_n_value_def tie_fields image_macho_sel symtab_tie_def
        tie_rd32 tie_rd8 entries_tie_def)
  moreover have "j = 0 \<or> j = 1" if "j < 2" for j :: nat
    using that by linarith
  ultimately show ?thesis by (simp add: symbol_table_def n)
qed

text \<open>
  C9, as stated, fails: the two entries of the image \<open>image_tie\<close> are section-relative and
  share the address \<open>0x1000\<close>; the entry with the lowest index, entry 0, has the section index
  \<^verbatim>\<open>NO_SECT\<close>, and resolving \<open>0x1000\<close> is an error that stores no name, size or offset.
\<close>

theorem tie_break_counterexample:
  "symbol_table (load_at 4096 image_tie) (image_macho 59) symtab_tie entries_tie \<and>
   image_commands (load_at 4096 image_tie) (image_macho 59) [] \<and>
   unat (nsyms symtab_tie) = 2 \<and>
   candidate entries_tie 0x1000 0 \<and> candidate entries_tie 0x1000 1 \<and>
   entry_value (entries_tie 0) = entry_value (entries_tie 1) \<and>
   macho_resolve_address (load_at 4096 image_tie) (image_macho 59) symtab_tie 0x1000
     True True True = Some (MACHO_ERROR, None, None, None)"
proof -
  have k: "0 < unat (nsyms symtab_tie)" by (simp add: symtab_tie_def)
  have c: "candidate entries_tie 0x1000 j" for j
    by (simp add: candidate_def entries_tie_def N_TYPE_def N_SECT_def)
  have g: "\<forall>j<unat (nsyms symtab_tie). candidate entries_tie 0x1000 j \<longrightarrow>
             entry_value (entries_tie j) \<le> entry_value (entries_tie 0)"
    by (simp add: entries_tie_def)
  have l: "\<forall>j<0. candidate entries_tie 0x1000 j \<longrightarrow>
             entry_value (entries_tie j) \<noteq> entry_value (entries_tie 0)"
    by simp
  have "macho_resolve_address (load_at 4096 image_tie) (image_macho 59) symtab_tie 0x1000
      True True True = Some (MACHO_ERROR, None, None, None)"
    by (subst resolve_address_selected [OF tie_table k c g l])
      (simp_all add: entries_tie_def NO_SECT_def)
  with tie_table tie_commands c show ?thesis
    by (simp add: symtab_tie_def entries_tie_def)
qed

lemma scenario_search:
  "macho_search_data (load_at 4096 (image_scenario 0 1)) (image_macho 198) [0xed, 0xfe] 5
     = Some (MACHO_SUCCESS, Some 0x1002)"
proof -
  have "search_data_loop (load_at 4096 (image_scenario 0 1)) (image_macho 198) [0xed, 0xfe] 5
      None = Some (MACHO_SUCCESS,
        Some (0x1000 + of_nat (4098 - (mh (image_macho 198) + unat (0 :: u64)))))"
    by (rule search_data_loop_hit [OF scenario_next_segment(1) scenario_segment(5) _
          scenario_segment(3,4) _ scenario_segment(1)])
      (simp_all add: image_macho_sel scenario_memmem)
  then show ?thesis by (simp add: macho_search_data_def image_macho_sel)
qed

text \<open>
  The amended C8 at two images. In the image \<open>image_scenario\<close> the bytes \<open>ed fe\<close> are found
  at offset 2 of the file bytes of the only segment, at 4124, which may be read and executed
  and which contains the address returned. In the image \<open>image_overlap\<close> the first segment,
  at 4124, may only be read and written, and the search from the start of the image is the
  search that continues after that segment.
\<close>

theorem search_data_protection_witness:
  "macho_search_data (load_at 4096 (image_scenario 0 1)) (image_macho 198) [0xed, 0xfe] 5
     = Some (MACHO_SUCCESS, Some 0x1002) \<and>
   includes_prot 5 VM_PROT_EXECUTE \<and>
   segments_disjoint (load_at 4096 (image_scenario 0 1)) (image_macho 198) \<and>
   file_within_vm (load_at 4096 (image_scenario 0 1)) (image_macho 198) \<and>
   (\<exists>p initprot. image_segment (load_at 4096 (image_scenario 0 1)) (image_macho 198) p \<and>
      segment_initprot (load_at 4096 (image_scenario 0 1)) (image_macho 198) p = Some initprot \<and>
      includes_prot initprot 5 \<and>
      match_in_segment (load_at 4096 (image_scenario 0 1)) (image_macho 198) [0xed, 0xfe] p
        0x1002) \<and>
   image_segment (load_at 4096 (image_scenario 0 1)) (image_macho 198) 4124 \<and>
   in_segment (load_at 4096 (image_scenario 0 1)) (image_macho 198) 4124 0x1002 \<and>
   segment_executable (load_at 4096 (image_scenario 0 1)) (image_macho 198) 4124 \<and>
   macho_search_data (load_at 4096 image_overlap) (image_macho 140) [0xed, 0xfe] 5
     = Some (MACHO_SUCCESS, Some 0x1002) \<and>
   macho_next_segment (load_at 4096 image_overlap) (image_macho 140) None = Some (Some 4124) \<and>
   segment_initprot (load_at 4096 image_overlap) (image_macho 140) 4124 = Some 3 \<and>
   \<not> includes_prot 3 5 \<and>
   search_data_loop (load_at 4096 image_overlap) (image_macho 140) [0xed, 0xfe] 5 None
     = search_data_loop (load_at 4096 image_overlap) (image_macho 140) [0xed, 0xfe] 5 (Some 4124)"
proof -
  note s = scenario_search
  have x: "includes_prot 5 VM_PROT_EXECUTE"
    by (simp add: includes_prot_def VM_PROT_EXECUTE_def)
  have i: "image_segment (load_at 4096 (image_scenario 0 1)) (image_macho 198) 4124"
    by (rule image_segment.first_segment) (rule scenario_next_segment)
  have n: "in_segment (load_at 4096 (image_scenario 0 1)) (image_macho 198) 4124 0x1002"
    by (simp add: in_segment_def scenario_segment)
  have p: "\<not> includes_prot 3 (5 :: u32)" by (simp add: includes_prot_def)
  note o = overlap_next_segment(1) [of 140] overlap_segments(3) [of 140]
  from search_data_protection [OF s] s x scenario_layout [of 0 1 198] i n
  have a: "(\<exists>p initprot. image_segment (load_at 4096 (image_scenario 0 1)) (image_macho 198) p \<and>
      segment_initprot (load_at 4096 (image_scenario 0 1)) (image_macho 198) p = Some initprot \<and>
      includes_prot initprot 5 \<and>
      match_in_segment (load_at 4096 (image_scenario 0 1)) (image_macho 198) [0xed, 0xfe] p
        0x1002)"
    and b: "segment_executable (load_at 4096 (image_scenario 0 1)) (image_macho 198) 4124"
    by blast+
  from search_data_protection [OF overlap_search] o p
  have c: "search_data_loop (load_at 4096 image_overlap) (image_macho 140) [0xed, 0xfe] 5 None
     = search_data_loop (load_at 4096 image_overlap) (image_macho 140) [0xed, 0xfe] 5 (Some 4124)"
    by blast
  from s x scenario_layout [of 0 1 198] a i n b overlap_search o p c show ?thesis
    by (intro conjI)
qed

text \<open>
  The amended C3 at two images. In the image \<open>image_scenario\<close> the name \<^verbatim>\<open>_a\<close> has the string
  index 4, the first entry with that index is entry 0, and the result is its address
  \<open>0x1000\<close> with the guessed size \<open>0x50\<close>. In the image \<open>image_one_symbol\<close> the name \<^verbatim>\<open>b\<close> is
  absent from the string blob, and it is not found.
\<close>

theorem macho_resolve_symbol_cases_witness:
  "symbol_table (load_at 4096 (image_scenario 0 1)) (image_macho 198) symtab_scenario
     entries_scenario \<and>
   image_commands (load_at 4096 (image_scenario 0 1)) (image_macho 198) (commands_scenario 0 1) \<and>
   readable (load_at 4096 (image_scenario 0 1))
     (mh (image_macho 198) + unat (stroff symtab_scenario) + 4)
     (unat (strsize symtab_scenario) - 4) \<and>
   macho_symtab_string_index (load_at 4096 (image_scenario 0 1)) (image_macho 198)
     symtab_scenario [0x5f, 0x61] = Some 4 \<and>
   c_string (load_at 4096 (image_scenario 0 1))
     (mh (image_macho 198) + unat (stroff symtab_scenario) + 4) [0x5f, 0x61] \<and>
   resolve_symbol_spec (commands_scenario 0 1) symtab_scenario entries_scenario 4 True True
     = (MACHO_SUCCESS, Some 0x1000, Some 0x50) \<and>
   macho_resolve_symbol (load_at 4096 (image_scenario 0 1)) (image_macho 198) symtab_scenario
     [0x5f, 0x61] True True = Some (MACHO_SUCCESS, Some 0x1000, Some 0x50) \<and>
   symbol_table (load_at 4096 image_one_symbol) (image_macho 47) symtab_one_symbol
     entries_one_symbol \<and>
   image_commands (load_at 4096 image_one_symbol) (image_macho 47) [] \<and>
   readable (load_at 4096 image_one_symbol)
     (mh (image_macho 47) + unat (stroff symtab_one_symbol) + 4)
     (unat (strsize symtab_one_symbol) - 4) \<and>
   \<not> name_in_blob (load_at 4096 image_one_symbol) (image_macho 47) symtab_one_symbol [0x62] \<and>
   macho_symtab_string_index (load_at 4096 image_one_symbol) (image_macho 47)
     symtab_one_symbol [0x62] = Some 0 \<and>
   macho_resolve_symbol (load_at 4096 image_one_symbol) (image_macho 47) symtab_one_symbol
     [0x62] True True = Some (MACHO_NOT_FOUND, None, None)"
proof -
  have rs: "readable (load_at 4096 (image_scenario 0 1))
      (mh (image_macho 198) + unat (stroff symtab_scenario) + 4)
      (unat (strsize symtab_scenario) - 4)"
    by (rule readable_load_at_range)
      (simp_all add: image_macho_sel symtab_scenario_def scenario_length)
  have cs: "c_string (load_at 4096 (image_scenario 0 1))
      (mh (image_macho 198) + unat (stroff symtab_scenario) + 4) [0x5f, 0x61]"
    using scenario_c_string [of 0 1] by (simp add: image_macho_sel symtab_scenario_def)
  have spec: "resolve_symbol_spec (commands_scenario 0 1) symtab_scenario entries_scenario 4
      True True = (MACHO_SUCCESS, Some 0x1000, Some 0x50)"
    by (simp add: resolve_symbol_spec_def scenario_upt entries_scenario_def N_TYPE_def
        N_SECT_def N_UNDF_def scenario_size_guess)
  from macho_resolve_symbol_cases [OF scenario_symbol_table scenario_commands rs,
      of "[0x5f, 0x61]" True True]
    scenario_string_index [of 0 1 198] spec
  have found: "macho_resolve_symbol (load_at 4096 (image_scenario 0 1)) (image_macho 198)
      symtab_scenario [0x5f, 0x61] True True = Some (MACHO_SUCCESS, Some 0x1000, Some 0x50)"
    by auto
  have r: "readable (load_at 4096 image_one_symbol)
      (mh (image_macho 47) + unat (stroff symtab_one_symbol) + 4)
      (unat (strsize symtab_one_symbol) - 4)"
    by (rule readable_load_at_range)
      (simp_all add: image_macho_sel symtab_one_symbol_def one_symbol_length)
  have nb: "\<not> name_in_blob (load_at 4096 image_one_symbol) (image_macho 47) symtab_one_symbol
      [0x62]"
  proof
    assume "name_in_blob (load_at 4096 image_one_symbol) (image_macho 47) symtab_one_symbol
      [0x62]"
    then obtain i where i: "4 \<le> i" "i + 1 < 7"
      and s: "c_string (load_at 4096 image_one_symbol) (4136 + i) [0x62]"
      by (auto simp: name_in_blob_def symtab_one_symbol_def image_macho_sel)
    from i have "i = 4 \<or> i = 5" by linarith
    with s one_symbol_rd8 show False by (auto simp: c_string_def rd8_def)
  qed
  from macho_resolve_symbol_cases [OF one_symbol_table one_symbol_commands r,
      of "[0x62]" True True] nb
  have absent: "macho_symtab_string_index (load_at 4096 image_one_symbol) (image_macho 47)
      symtab_one_symbol [0x62] = Some 0"
    "macho_resolve_symbol (load_at 4096 image_one_symbol) (image_macho 47)
      symtab_one_symbol [0x62] True True = Some (MACHO_NOT_FOUND, None, None)"
    by auto
  from scenario_symbol_table [of 0 1 198] scenario_commands [of 0 1 198] rs
    scenario_string_index [of 0 1 198] cs spec found
    one_symbol_table [of 47] one_symbol_commands [of 47] r nb absent
  show ?thesis by (intro conjI)
qed

subsection \<open>The image \<open>image_inner_name\<close>\<close>

lemma inner_name_length: "length image_inner_name = 47"
  by (simp add: image_inner_name_def)

lemma inner_name_rd32:
  "rd32 (load_at 4096 image_inner_name) 4096 = Some MH_MAGIC"
  "rd32 (load_at 4096 image_inner_name) 4116 = Some 0"
  "rd32 (load_at 4096 image_inner_name) 4124 = Some 5"
  "rd32 (load_at 4096 image_inner_name) 4132 = Some 0x1000"
  by (simp_all add: rd32_load_at inner_name_length)
    (simp_all add: image_inner_name_def le32_def MH_MAGIC_def)

lemma inner_name_rd8:
  "rd8 (load_at 4096 image_inner_name) 4128 = Some 0x0e"
  "rd8 (load_at 4096 image_inner_name) 4129 = Some 1"
  "rd8 (load_at 4096 image_inner_name) 4140 = Some 0x5f"
  "rd8 (load_at 4096 image_inner_name) 4141 = Some 0x61"
  "rd8 (load_at 4096 image_inner_name) 4142 = Some 0"
  by (simp_all add: rd8_load_at inner_name_length) (simp_all add: image_inner_name_def)

lemma inner_name_is_64:
  "macho_is_64 (load_at 4096 image_inner_name) (image_macho sz) = Some False"
  by (simp add: is_64_of_magic [where magic = MH_MAGIC] image_macho_sel inner_name_rd32
      MH_MAGIC_def MH_MAGIC_64_def)

lemmas inner_name_fields = fields_32 [OF inner_name_is_64]

lemma inner_name_commands:
  "image_commands (load_at 4096 image_inner_name) (image_macho sz) []"
  by (simp add: image_commands_def inner_name_is_64 header_sizeofcmds_def inner_name_fields
      inner_name_rd32 image_macho_sel)

lemma inner_name_table:
  "symbol_table (load_at 4096 image_inner_name) (image_macho sz) symtab_inner_name
     entries_inner_name"
  by (simp add: symbol_table_def symtab_inner_name_def sym_entry_def macho_get_nlist_def
      nlist_n_strx_def nlist_n_type_def nlist_n_sect_def nlist_n_value_def inner_name_fields
      image_macho_sel inner_name_rd32 inner_name_rd8 entries_inner_name_def)

lemma inner_name_c_string:
  "c_string (load_at 4096 image_inner_name) 4141 [0x61]"
  using inner_name_rd8 by (simp_all add: c_string_def rd8_def)

lemma inner_name_string_index:
  "macho_symtab_string_index (load_at 4096 image_inner_name) (image_macho sz) symtab_inner_name
     [0x61] = Some 0"
proof -
  have s2: "skip_to_nul (load_at 4096 image_inner_name) 4143 4142 = Some 4142"
    by (subst skip_to_nul.simps) (simp add: inner_name_rd8)
  have s1: "skip_to_nul (load_at 4096 image_inner_name) 4143 4141 = Some 4142"
    by (subst skip_to_nul.simps) (simp add: inner_name_rd8 s2)
  have s0: "skip_to_nul (load_at 4096 image_inner_name) 4143 4140 = Some 4142"
    by (subst skip_to_nul.simps) (simp add: inner_name_rd8 s1)
  have e: "string_index_loop (load_at 4096 image_inner_name) [0x61] 4136 4143 strx 0 4143 = Some 0"
    for strx
    by (subst string_index_loop.simps) simp
  have "string_index_loop (load_at 4096 image_inner_name) [0x61] 4136 4143 4 0 4140 = Some 0"
    by (subst string_index_loop.simps) (simp add: inner_name_rd8 name_at_def s0 e)
  then show ?thesis
    by (simp add: macho_symtab_string_index_def symtab_inner_name_def image_macho_sel)
qed

text \<open>
  C3, as stated, fails: in the image \<open>image_inner_name\<close> the name \<^verbatim>\<open>a\<close> is not absent from
  the string blob, which holds it at index 5, inside the entry \<^verbatim>\<open>_a\<close>; the first symbol
  entry with the string index 5 is section-relative, so that the specification's result
  for that index is success with the address \<open>0x1000\<close>; and \<^verbatim>\<open>macho_resolve_symbol\<close> returns
  \<^verbatim>\<open>MACHO_NOT_FOUND\<close>.
\<close>

theorem resolve_symbol_counterexample:
  "symbol_table (load_at 4096 image_inner_name) (image_macho 47) symtab_inner_name
     entries_inner_name \<and>
   image_commands (load_at 4096 image_inner_name) (image_macho 47) [] \<and>
   name_in_blob (load_at 4096 image_inner_name) (image_macho 47) symtab_inner_name [0x61] \<and>
   c_string (load_at 4096 image_inner_name)
     (mh (image_macho 47) + unat (stroff symtab_inner_name) + 5) [0x61] \<and>
   resolve_symbol_spec [] symtab_inner_name entries_inner_name 5 True True
     = (MACHO_SUCCESS, Some 0x1000, Some 0) \<and>
   macho_resolve_symbol (load_at 4096 image_inner_name) (image_macho 47) symtab_inner_name
     [0x61] True True = Some (MACHO_NOT_FOUND, None, None)"
proof -
  have c: "c_string (load_at 4096 image_inner_name)
      (mh (image_macho 47) + unat (stroff symtab_inner_name) + 5) [0x61]"
    using inner_name_c_string by (simp add: image_macho_sel symtab_inner_name_def)
  then have n: "name_in_blob (load_at 4096 image_inner_name) (image_macho 47)
      symtab_inner_name [0x61]"
    unfolding name_in_blob_def
    by (intro exI [of _ 5]) (simp add: symtab_inner_name_def)
  have u: "[0..<unat (nsyms symtab_inner_name)] = [0]"
    by (simp add: symtab_inner_name_def)
  have g: "size_guess [] symtab_inner_name entries_inner_name 0x1000 = 0"
    by (simp add: size_guess_def applicable_bounds_def structural_bounds_def
        next_symbol_after_def u entries_inner_name_def next_symbol_bound_def
        least_bound_sentinel_def)
  have spec: "resolve_symbol_spec [] symtab_inner_name entries_inner_name 5 True True
      = (MACHO_SUCCESS, Some 0x1000, Some 0)"
    by (simp add: resolve_symbol_spec_def u N_TYPE_def N_SECT_def N_UNDF_def)
      (simp add: entries_inner_name_def g)
  have code: "macho_resolve_symbol (load_at 4096 image_inner_name) (image_macho 47)
      symtab_inner_name [0x61] True True = Some (MACHO_NOT_FOUND, None, None)"
    by (simp add: macho_resolve_symbol_def inner_name_string_index)
  from inner_name_table [of 47] inner_name_commands [of 47] n c spec code
  show ?thesis by (intro conjI)
qed

text \<open>C1 at the image \<open>image_one_symbol\<close>, whose command table is empty.\<close>

theorem macho_validate_iff_witness:
  "readable (load_at 4096 image_one_symbol) 4096 (unat (47 :: u64)) \<and>
   macho_validate (load_at 4096 image_one_symbol) 4096 47 = Some MACHO_SUCCESS"
proof -
  have r: "readable (load_at 4096 image_one_symbol) 4096 (unat (47 :: u64))"
    by (rule readable_load_at_range) (simp_all add: one_symbol_length)
  have c: "validate_conditions (load_at 4096 image_one_symbol) 4096 47"
    by (simp add: validate_conditions_def one_symbol_rd32 recognized_magic_def
        header_size_of_magic_def MH_MAGIC_def MH_MAGIC_64_def)
  from macho_validate_iff [OF r] c r show ?thesis by simp
qed

subsection \<open>The images \<open>image_overlong\<close> and \<open>image_two_commands\<close>\<close>

lemma overlong_reads:
  "rd32 (load_at 4096 image_overlong) 4096 = Some MH_MAGIC"
  "rd32 (load_at 4096 image_overlong) 4116 = Some 8"
  "rd32 (load_at 4096 image_overlong) 4128 = Some 16"
  by (simp_all add: rd32_def load_at_def image_overlong_def le32_def MH_MAGIC_def)

lemma overlong_header:
  "macho_header_size (load_at 4096 image_overlong) (image_macho 44) = Some 28"
  "header_sizeofcmds (load_at 4096 image_overlong) (image_macho 44) = Some 8"
  "lc_cmdsize (load_at 4096 image_overlong) 4124 = Some 16"
  by (simp_all add: macho_header_size_def MACHO_STRUCT_SIZE_def macho_is_64_def
      header_sizeofcmds_def field_u32_def lc_cmdsize_def image_macho_sel overlong_reads
      MH_MAGIC_def MH_MAGIC_64_def)

lemma overlong_commands:
  "load_commands (load_at 4096 image_overlong) (image_macho 44) = Some [4124]"
proof -
  have a: "macho_next_load_command (load_at 4096 image_overlong) (image_macho 44) None
             = Some (Some 4124)"
    by (simp add: next_load_command_None [OF overlong_header(1,2)] image_macho_sel)
  have b: "macho_next_load_command (load_at 4096 image_overlong) (image_macho 44) (Some 4124)
             = Some None"
    by (simp add: next_load_command_Some [OF overlong_header] image_macho_sel)
  have "load_commands_from (load_at 4096 image_overlong) (image_macho 44) (Some 4124) = Some []"
    by (subst load_commands_from.simps) (simp add: b)
  then show ?thesis
    unfolding load_commands_def by (subst load_commands_from.simps) (simp add: a)
qed

text \<open>
  C2, as stated, fails: the image \<open>image_overlong\<close> passes validation, its table of 8
  bytes yields one command, and that command declares 16 bytes.
\<close>

theorem command_table_claim_counterexample:
  "macho_validate (load_at 4096 image_overlong) (mh (image_macho 44)) (msize (image_macho 44))
     = Some MACHO_SUCCESS \<and>
   \<not> command_table_claim (load_at 4096 image_overlong) (image_macho 44)"
proof
  show "macho_validate (load_at 4096 image_overlong) (mh (image_macho 44)) (msize (image_macho 44))
          = Some MACHO_SUCCESS"
    by (simp add: macho_validate_def macho_validate_32_def image_macho_sel overlong_reads
        MH_MAGIC_def MH_MAGIC_64_def)
  show "\<not> command_table_claim (load_at 4096 image_overlong) (image_macho 44)"
    by (simp add: command_table_claim_def overlong_commands overlong_header)
qed

lemma two_commands_reads:
  "rd32 (load_at 4096 image_two_commands) 4096 = Some MH_MAGIC"
  "rd32 (load_at 4096 image_two_commands) 4116 = Some 16"
  "rd32 (load_at 4096 image_two_commands) 4128 = Some 8"
  "rd32 (load_at 4096 image_two_commands) 4136 = Some 8"
  by (simp_all add: rd32_def load_at_def image_two_commands_def le32_def MH_MAGIC_def)

lemma two_commands_header:
  "macho_header_size (load_at 4096 image_two_commands) (image_macho 44) = Some 28"
  "header_sizeofcmds (load_at 4096 image_two_commands) (image_macho 44) = Some 16"
  by (simp_all add: macho_header_size_def MACHO_STRUCT_SIZE_def macho_is_64_def
      header_sizeofcmds_def field_u32_def image_macho_sel two_commands_reads
      MH_MAGIC_def MH_MAGIC_64_def)

lemma two_commands_reached:
  "reached (load_at 4096 image_two_commands) 4124 4140 q \<Longrightarrow> q = 4124 \<or> q = 4132"
  by (induction rule: reached.induct)
    (auto simp: lc_cmdsize_def two_commands_reads)

lemma two_commands_cmdsize:
  "q = 4124 \<or> q = 4132 \<Longrightarrow>
   \<exists>c. lc_cmdsize (load_at 4096 image_two_commands) q = Some c \<and> c \<noteq> 0"
  by (auto simp: lc_cmdsize_def two_commands_reads)

text \<open>The amended C2 at the image \<open>image_two_commands\<close>.\<close>

theorem load_commands_bounded_witness:
  "macho_validate (load_at 4096 image_two_commands) (mh (image_macho 44)) (msize (image_macho 44))
     = Some MACHO_SUCCESS \<and>
   (\<exists>cs n s. load_commands (load_at 4096 image_two_commands) (image_macho 44) = Some cs \<and>
      header_sizeofcmds (load_at 4096 image_two_commands) (image_macho 44) = Some n \<and>
      (cs = [] \<longleftrightarrow> n = 0) \<and>
      cmdsize_sum (load_at 4096 image_two_commands) (butlast cs) = Some s \<and>
      (cs \<noteq> [] \<longrightarrow> s < unat n))"
proof -
  have v: "macho_validate (load_at 4096 image_two_commands) (mh (image_macho 44))
             (msize (image_macho 44)) = Some MACHO_SUCCESS"
    by (simp add: macho_validate_def macho_validate_32_def image_macho_sel
        two_commands_reads MH_MAGIC_def MH_MAGIC_64_def)
  have nz: "\<forall>hs n q. macho_header_size (load_at 4096 image_two_commands) (image_macho 44) = Some hs \<longrightarrow>
      header_sizeofcmds (load_at 4096 image_two_commands) (image_macho 44) = Some n \<longrightarrow>
      reached (load_at 4096 image_two_commands) (mh (image_macho 44) + hs)
        (mh (image_macho 44) + hs + unat n) q \<longrightarrow>
      (\<exists>c. lc_cmdsize (load_at 4096 image_two_commands) q = Some c \<and> c \<noteq> 0)"
    by (auto simp: two_commands_header image_macho_sel
        intro!: two_commands_cmdsize two_commands_reached)
  from load_commands_bounded [OF v nz] v show ?thesis by blast
qed

end
